theory Spec2Isabelle
  imports Complex_Main "HOL-Library.Finite_Map" "HOL-Library.Multiset" "HOL-Library.Log_Nat"
begin

section \<open>Python values\<close>

text \<open>
  A Python \<open>str\<close> is a sequence of Unicode code points (numbers below \<open>0x110000\<close>, lone
  surrogates included). Literals of the source are written \<open>str ''...''\<close>.
\<close>

type_synonym pystr = "nat list"

definition str :: "string \<Rightarrow> pystr" where
  "str s = map of_char s"

text \<open>
  A Python \<open>float\<close>: a finite value (kept as the exact rational it denotes), an infinity
  or a NaN. The sign of zero plays no role in this program.
\<close>

datatype pyfloat = Finite rat | PosInf | NegInf | NaN

text \<open>
  The objects \<open>json.loads\<close> builds: \<open>None\<close>, \<open>bool\<close>, \<open>int\<close>, \<open>float\<close>, \<open>str\<close>, \<open>list\<close>
  and \<open>dict\<close> with \<open>str\<close> keys.
\<close>

datatype json =
    JNull
  | JBool bool
  | JInt int
  | JFloat pyfloat
  | JStr pystr
  | JArr "json list"
  | JObj "(pystr, json) fmap"

text \<open>The exceptions the modelled code can raise.\<close>

datatype py_error =
    KeyError
  | IndexError
  | TypeError
  | ValueError
  | AttributeError
  | OverflowError
  | UnicodeEncodeError
  | JSONDecodeError

type_synonym 'a result = "py_error + 'a"

definition bind :: "'a result \<Rightarrow> ('a \<Rightarrow> 'b result) \<Rightarrow> 'b result" where
  "bind r f = (case r of Inl e \<Rightarrow> Inl e | Inr x \<Rightarrow> f x)"

text \<open>
  Subscription \<open>obj[k]\<close> with a \<open>str\<close> or an \<open>int\<close> subscript. A \<open>dict\<close> from JSON has only
  \<open>str\<close> keys, so an \<open>int\<close> subscript is a \<open>KeyError\<close>; a \<open>list\<close> or \<open>str\<close> takes only
  integers and counts negative ones from the end; the other objects are not subscriptable.
\<close>

datatype pykey = KStr pystr | KInt int

definition seq_index :: "'a list \<Rightarrow> int \<Rightarrow> 'a result" where
  "seq_index xs i =
     (if 0 \<le> i \<and> i < int (length xs) then Inr (xs ! nat i)
      else if i < 0 \<and> - int (length xs) \<le> i then Inr (xs ! nat (int (length xs) + i))
      else Inl IndexError)"

fun subscript :: "json \<Rightarrow> pykey \<Rightarrow> json result" where
  "subscript (JObj m) (KStr k) = (case fmlookup m k of None \<Rightarrow> Inl KeyError | Some v \<Rightarrow> Inr v)"
| "subscript (JObj m) (KInt i) = Inl KeyError"
| "subscript (JArr xs) (KInt i) = seq_index xs i"
| "subscript (JArr xs) (KStr k) = Inl TypeError"
| "subscript (JStr s) (KInt i) = bind (seq_index s i) (\<lambda>c. Inr (JStr [c]))"
| "subscript (JStr s) (KStr k) = Inl TypeError"
| "subscript JNull k = Inl TypeError"
| "subscript (JBool b) k = Inl TypeError"
| "subscript (JInt n) k = Inl TypeError"
| "subscript (JFloat x) k = Inl TypeError"

text \<open>A chain of subscriptions \<open>obj[k1][k2]...\<close>, evaluated left to right.\<close>

fun get_path :: "json \<Rightarrow> pykey list \<Rightarrow> json result" where
  "get_path v [] = Inr v"
| "get_path v (k # ks) = bind (subscript v k) (\<lambda>w. get_path w ks)"

section \<open>The fetched page and the external collaborators\<close>

text \<open>
  Of a \<open>ScrapeApiResponse\<close> the parsers read one thing: the value of
  \<open>result.selector.xpath('//script[@id="__NEXT_DATA__"]/text()').get()\<close>, which is \<open>None\<close>
  when the document has no such script element, and the text otherwise. Log calls are left
  out.
\<close>

record response =
  next_data :: "pystr option"

record scrape_config =
  config_url :: json
  country :: pystr
  asp :: bool

text \<open>
  What the program takes from outside: \<open>json.loads\<close>, the page the scraping client returns
  for a request, the order in which \<open>concurrent_scrape\<close> delivers the results of a batch,
  and two tables of the URL library (NFKC normalisation and the validity of a bracketed
  host).
\<close>

record env =
  json_loads :: "pystr \<Rightarrow> json result"
  fetch :: "scrape_config \<Rightarrow> response"
  deliver :: "scrape_config list \<Rightarrow> scrape_config list"
  nfkc :: "pystr \<Rightarrow> pystr"
  bracketed_host_ok :: "pystr \<Rightarrow> bool"

section \<open>Page parser\<close>

text \<open>
  The first component of what \<open>parse_search\<close> returns: the list built by the comprehension,
  or the literal \<open>{}\<close> of the no-data branch.
\<close>

datatype previews = PList "json list" | PEmptyDict

definition stack_path :: "pykey list" where
  "stack_path = [KStr (str ''props''), KStr (str ''pageProps''), KStr (str ''initialData''),
                 KStr (str ''searchResult''), KStr (str ''itemStacks''), KInt 0]"

text \<open>
  \<open>[result for result in results if result["__typename"] == "Product"]\<close> over the elements
  of a list: the first subscription that raises ends the comprehension.
\<close>

fun product_items :: "json list \<Rightarrow> json list result" where
  "product_items [] = Inr []"
| "product_items (x # xs) =
     bind (subscript x (KStr (str ''__typename''))) (\<lambda>t.
     bind (product_items xs) (\<lambda>ys.
     Inr (if t = JStr (str ''Product'') then x # ys else ys)))"

text \<open>
  The comprehension over any object: a \<open>dict\<close> iterates its keys and a \<open>str\<close> its
  characters, each a \<open>str\<close>, whose subscription by a \<open>str\<close> is a \<open>TypeError\<close>; the other
  objects are not iterable.
\<close>

fun filter_products :: "json \<Rightarrow> json list result" where
  "filter_products (JArr xs) = product_items xs"
| "filter_products (JObj m) = (if m = fmempty then Inr [] else Inl TypeError)"
| "filter_products (JStr s) = (if s = [] then Inr [] else Inl TypeError)"
| "filter_products JNull = Inl TypeError"
| "filter_products (JBool b) = Inl TypeError"
| "filter_products (JInt n) = Inl TypeError"
| "filter_products (JFloat x) = Inl TypeError"

definition parse_search :: "env \<Rightarrow> response \<Rightarrow> (previews \<times> json) result" where
  "parse_search env result =
     (case next_data result of
        Some text \<Rightarrow>
          bind (json_loads env text) (\<lambda>data.
          bind (get_path data (stack_path @ [KStr (str ''count'')])) (\<lambda>total_results.
          bind (get_path data (stack_path @ [KStr (str ''items'')])) (\<lambda>results.
          bind (filter_products results) (\<lambda>results.
          Inr (PList results, total_results)))))
      | None \<Rightarrow> Inr (PEmptyDict, JInt 0))"

definition data_path :: "pykey list" where
  "data_path = [KStr (str ''props''), KStr (str ''pageProps''), KStr (str ''initialData''),
                KStr (str ''data'')]"

definition wanted_product_keys :: "pystr list" where
  "wanted_product_keys =
     [str ''availabilityStatus'', str ''averageRating'', str ''brand'', str ''id'',
      str ''imageInfo'', str ''manufacturerName'', str ''name'', str ''orderLimit'',
      str ''orderMinLimit'', str ''priceInfo'', str ''shortDescription'', str ''type'']"

text \<open>\<open>obj.items()\<close>: only a \<open>dict\<close> has the method.\<close>

fun items :: "json \<Rightarrow> (pystr, json) fmap result" where
  "items (JObj m) = Inr m"
| "items v = Inl AttributeError"

text \<open>
  \<open>parse_product\<close> returns a \<open>dict\<close> with the keys \<open>product\<close> and \<open>reviews\<close>, or falls off
  its end and so returns \<open>None\<close>.
\<close>

definition parse_product :: "env \<Rightarrow> response \<Rightarrow> json option result" where
  "parse_product env result =
     (case next_data result of
        Some text \<Rightarrow>
          bind (json_loads env text) (\<lambda>data.
          bind (get_path data (data_path @ [KStr (str ''product'')])) (\<lambda>product_raw.
          bind (items product_raw) (\<lambda>kvs.
          let product = fmfilter (\<lambda>k. k \<in> set wanted_product_keys) kvs in
          bind (get_path data (data_path @ [KStr (str ''reviews'')])) (\<lambda>reviews_raw.
          Inr (Some (JObj (fmap_of_list
            [(str ''product'', JObj product), (str ''reviews'', reviews_raw)])))))))
      | None \<Rightarrow> Inr None)"

text \<open>
  The loop of \<open>_scrape_products_by_url\<close> over the delivered pages: a page without a record
  is passed over, an exception of the parser ends the loop.
\<close>

fun collect_products :: "env \<Rightarrow> json list \<Rightarrow> response list \<Rightarrow> json list result" where
  "collect_products env results [] = Inr results"
| "collect_products env results (r # rs) =
     bind (parse_product env r) (\<lambda>product.
     case product of
       Some p \<Rightarrow> collect_products env (results @ [p]) rs
     | None \<Rightarrow> collect_products env results rs)"

section \<open>URL builder\<close>

text \<open>
  \<open>str.encode('utf-8', 'strict')\<close>: the bytes of each code point, and
  \<open>UnicodeEncodeError\<close> at a surrogate (\<open>0xD800\<close> to \<open>0xDFFF\<close>).
\<close>

definition utf8_char :: "nat \<Rightarrow> nat list result" where
  "utf8_char c =
     (if c < 0x80 then Inr [c]
      else if c < 0x800 then Inr [0xC0 + c div 0x40, 0x80 + c mod 0x40]
      else if 0xD800 \<le> c \<and> c \<le> 0xDFFF then Inl UnicodeEncodeError
      else if c < 0x10000 then
        Inr [0xE0 + c div 0x1000, 0x80 + c div 0x40 mod 0x40, 0x80 + c mod 0x40]
      else
        Inr [0xF0 + c div 0x40000, 0x80 + c div 0x1000 mod 0x40, 0x80 + c div 0x40 mod 0x40,
             0x80 + c mod 0x40])"

fun utf8_encode :: "pystr \<Rightarrow> nat list result" where
  "utf8_encode [] = Inr []"
| "utf8_encode (c # cs) =
     bind (utf8_char c) (\<lambda>bs. bind (utf8_encode cs) (\<lambda>rest. Inr (bs @ rest)))"

text \<open>
  \<open>quote_from_bytes\<close>: a byte of the always-safe set or of \<open>safe\<close> stands for itself, any
  other byte becomes \<open>%XX\<close> with upper-case hexadecimal digits. (The source returns the
  bytes decoded when all of them are safe, which is the same string.)
\<close>

definition always_safe :: pystr where
  "always_safe =
     str ''ABCDEFGHIJKLMNOPQRSTUVWXYZabcdefghijklmnopqrstuvwxyz0123456789_.-~''"

definition hex_digit :: "nat \<Rightarrow> nat" where
  "hex_digit d = str ''0123456789ABCDEF'' ! d"

definition quoter :: "pystr \<Rightarrow> nat \<Rightarrow> pystr" where
  "quoter safe b =
     (if b \<in> set always_safe \<or> b \<in> set safe then [b]
      else [of_char CHR ''%'', hex_digit (b div 16), hex_digit (b mod 16)])"

definition quote_from_bytes :: "nat list \<Rightarrow> pystr \<Rightarrow> pystr" where
  "quote_from_bytes bs safe = concat (map (quoter safe) bs)"

definition quote :: "pystr \<Rightarrow> pystr \<Rightarrow> pystr result" where
  "quote string safe =
     (if string = [] then Inr string
      else bind (utf8_encode string) (\<lambda>bs. Inr (quote_from_bytes bs safe)))"

definition quote_plus :: "pystr \<Rightarrow> pystr result" where
  "quote_plus string =
     (if of_char CHR '' '' \<notin> set string then quote string []
      else bind (quote string (str '' ''))
             (\<lambda>q. Inr (map (\<lambda>c. if c = of_char CHR '' '' then of_char CHR ''+'' else c) q)))"

text \<open>\<open>sep.join(parts)\<close>.\<close>

fun join :: "pystr \<Rightarrow> pystr list \<Rightarrow> pystr" where
  "join sep [] = []"
| "join sep [x] = x"
| "join sep (x # y # ys) = x @ sep @ join sep (y # ys)"

text \<open>
  \<open>urlencode\<close> of a mapping whose keys and values are already strings (the caller applies
  \<open>str()\<close> to the others), with the default \<open>quote_via=quote_plus\<close>.
\<close>

fun urlencode_pairs :: "(pystr \<times> pystr) list \<Rightarrow> pystr list result" where
  "urlencode_pairs [] = Inr []"
| "urlencode_pairs ((k, v) # kvs) =
     bind (quote_plus k) (\<lambda>k'.
     bind (quote_plus v) (\<lambda>v'.
     bind (urlencode_pairs kvs) (\<lambda>l.
     Inr ((k' @ str ''='' @ v') # l))))"

definition urlencode :: "(pystr \<times> pystr) list \<Rightarrow> pystr result" where
  "urlencode query = bind (urlencode_pairs query) (\<lambda>l. Inr (join (str ''&'') l))"

text \<open>\<open>str(n)\<close> of an \<open>int\<close>: its decimal digits, after a minus sign when negative.\<close>

fun digits :: "nat \<Rightarrow> pystr" where
  "digits n = (if n < 10 then [of_char CHR ''0'' + n]
               else digits (n div 10) @ [of_char CHR ''0'' + n mod 10])"

declare digits.simps [simp del]

definition str_of_int :: "int \<Rightarrow> pystr" where
  "str_of_int i = (if i < 0 then of_char CHR ''-'' # digits (nat (- i)) else digits (nat i))"

text \<open>
  \<open>create_search_url(query, page=1, sort="price_low")\<close>; an argument left out is \<open>None\<close>
  here and takes its default.
\<close>

definition create_search_url :: "pystr \<Rightarrow> int option \<Rightarrow> pystr option \<Rightarrow> pystr result" where
  "create_search_url query page sort' =
     bind (urlencode
             [(str ''q'', query),
              (str ''sort'', (case sort' of None \<Rightarrow> str ''price_low'' | Some s \<Rightarrow> s)),
              (str ''page'', str_of_int (case page of None \<Rightarrow> 1 | Some i \<Rightarrow> i)),
              (str ''affinityOverride'', str ''default'')])
       (\<lambda>qs. Inr (str ''https://www.walmart.com/search?'' @ qs))"

text \<open>
  The encoding of one byte of a form value, as the claim about the URL builder words it:
  a space becomes \<open>+\<close>, an unreserved character stands for itself, any other byte is
  percent-encoded.
\<close>

definition form_encode_byte :: "nat \<Rightarrow> pystr" where
  "form_encode_byte b =
     (if b = of_char CHR '' '' then str ''+''
      else if b \<in> set always_safe then [b]
      else [of_char CHR ''%'', hex_digit (b div 16), hex_digit (b mod 16)])"

section \<open>Arithmetic of the page count\<close>

text \<open>
  Rounding of an exact rational to the nearest IEEE 754 double, ties to even: the exponent
  of the value (not below that of the subnormals), the unit in the last place, the
  significand rounded to an integer. A result of \<open>2 ^ 1024\<close> or more overflows.
\<close>

definition floor_log2 :: "rat \<Rightarrow> int" where
  "floor_log2 q =
     (case quotient_of q of (a, b) \<Rightarrow>
        let d = bitlen a - bitlen b in if q < power_int 2 d then d - 1 else d)"

definition round_half_even :: "rat \<Rightarrow> int" where
  "round_half_even x =
     (let n = \<lfloor>x\<rfloor>; r = x - of_int n
      in if r < 1 / 2 then n else if 1 / 2 < r then n + 1 else if even n then n else n + 1)"

definition round_to_double :: "rat \<Rightarrow> pyfloat" where
  "round_to_double q =
     (if q = 0 then Finite 0
      else
        let a = \<bar>q\<bar>;
            e = max (floor_log2 a) (- 1022);
            ulp = power_int 2 (e - 52);
            r = of_int (round_half_even (a / ulp)) * ulp
        in if 2 ^ 1024 \<le> r then (if 0 < q then PosInf else NegInf)
           else Finite (if 0 < q then r else - r))"

text \<open>
  \<open>a / b\<close> of two \<open>int\<close> is the correctly rounded quotient, and \<open>OverflowError\<close> when that
  is no finite double; \<open>x / b\<close> of a \<open>float\<close> and an \<open>int\<close> is the IEEE quotient. Only the
  divisor 40 occurs, so division by zero does not.
\<close>

definition int_truediv :: "int \<Rightarrow> int \<Rightarrow> pyfloat result" where
  "int_truediv a b =
     (case round_to_double (of_int a / of_int b) of
        Finite r \<Rightarrow> Inr (Finite r)
      | _ \<Rightarrow> Inl OverflowError)"

fun float_truediv :: "pyfloat \<Rightarrow> int \<Rightarrow> pyfloat" where
  "float_truediv (Finite x) b = round_to_double (x / of_int b)"
| "float_truediv PosInf b = PosInf"
| "float_truediv NegInf b = NegInf"
| "float_truediv NaN b = NaN"

text \<open>\<open>total_items / 40\<close> for whatever object the page reported as its count.\<close>

fun truediv40 :: "json \<Rightarrow> pyfloat result" where
  "truediv40 (JInt n) = int_truediv n 40"
| "truediv40 (JBool b) = int_truediv (if b then 1 else 0) 40"
| "truediv40 (JFloat x) = Inr (float_truediv x 40)"
| "truediv40 JNull = Inl TypeError"
| "truediv40 (JStr s) = Inl TypeError"
| "truediv40 (JArr xs) = Inl TypeError"
| "truediv40 (JObj m) = Inl TypeError"

fun math_ceil :: "pyfloat \<Rightarrow> int result" where
  "math_ceil (Finite x) = Inr \<lceil>x\<rceil>"
| "math_ceil PosInf = Inl OverflowError"
| "math_ceil NegInf = Inl OverflowError"
| "math_ceil NaN = Inl ValueError"

text \<open>
  Two notions for stating what is proved about the division: the value rounding gives a
  positive rational in the normal range, and the least magnitude of an integer whose
  quotient by 40 is no finite double.
\<close>

definition rounded :: "rat \<Rightarrow> rat" where
  "rounded a = of_int (round_half_even (a / power_int 2 (floor_log2 a - 52))) *
               power_int 2 (floor_log2 a - 52)"

definition truediv40_bound :: int where
  "truediv40_bound = 40 * (2 ^ 1024 - 2 ^ 970)"

section \<open>Discovery\<close>

text \<open>\<open>ScrapeConfig(url, country="US", asp=True)\<close>.\<close>

definition ScrapeConfig :: "json \<Rightarrow> scrape_config" where
  "ScrapeConfig u = \<lparr>config_url = u, country = str ''US'', asp = True\<rparr>"

text \<open>\<open>[create_search_url(query=search, page=i) for i in pages]\<close>.\<close>

fun page_urls :: "pystr \<Rightarrow> int list \<Rightarrow> pystr list result" where
  "page_urls search [] = Inr []"
| "page_urls search (i # pages) =
     bind (create_search_url search (Some i) None) (\<lambda>u.
     bind (page_urls search pages) (\<lambda>us. Inr (u # us)))"

text \<open>
  \<open>previews.extend(found)\<close>: a list grows by the elements of the argument (the empty
  \<open>dict\<close> of the no-data branch has none); a \<open>dict\<close> has no such method.
\<close>

fun extend :: "previews \<Rightarrow> previews \<Rightarrow> previews result" where
  "extend (PList xs) (PList ys) = Inr (PList (xs @ ys))"
| "extend (PList xs) PEmptyDict = Inr (PList xs)"
| "extend PEmptyDict ys = Inl AttributeError"

text \<open>
  The loop over the delivered pages 2 and up. In \<open>previews.extend(parse_search(result)[0])\<close>
  the method is looked up on \<open>previews\<close> before the page is parsed, so a \<open>dict\<close> fails
  there.
\<close>

fun extend_all :: "env \<Rightarrow> previews \<Rightarrow> response list \<Rightarrow> previews result" where
  "extend_all env previews [] = Inr previews"
| "extend_all env PEmptyDict (r # rs) = Inl AttributeError"
| "extend_all env (PList xs) (r # rs) =
     bind (parse_search env r) (\<lambda>(found, n).
     bind (extend (PList xs) found) (\<lambda>previews'. extend_all env previews' rs))"

text \<open>
  \<open>concurrent_scrape\<close>: the pages of a batch of requests, in the order of their delivery.
\<close>

definition concurrent_scrape :: "env \<Rightarrow> scrape_config list \<Rightarrow> response list" where
  "concurrent_scrape env configs = map (fetch env) (deliver env configs)"

text \<open>
  \<open>discover_walmart\<close> returns its result or the exception raised, together with the
  requests it handed to the scraping client: the first page, then the batch of the other
  pages.
\<close>

definition discover_walmart :: "env \<Rightarrow> pystr \<Rightarrow> previews result \<times> scrape_config list" where
  "discover_walmart env search =
     (case create_search_url search None None of
        Inl e \<Rightarrow> (Inl e, [])
      | Inr u \<Rightarrow>
          let first = ScrapeConfig (JStr u) in
          (case bind (parse_search env (fetch env first)) (\<lambda>(previews, total_items).
                bind (truediv40 total_items) (\<lambda>x.
                bind (math_ceil x) (\<lambda>max_page.
                bind (page_urls search [2 .. (if max_page > 25 then 25 else max_page)])
                  (\<lambda>other_page_urls. Inr (previews, other_page_urls))))) of
             Inl e \<Rightarrow> (Inl e, [first])
           | Inr (previews, other_page_urls) \<Rightarrow>
               let batch = map (\<lambda>u. ScrapeConfig (JStr u)) other_page_urls in
               (extend_all env previews (concurrent_scrape env batch), first # batch)))"

section \<open>URL resolution\<close>

text \<open>
  \<open>urllib.parse.urljoin\<close> on \<open>str\<close> arguments, function by function as in CPython 3.11.
  Parsed URLs are the tuples the library returns.
\<close>

definition uses_relative :: "pystr list" where
  "uses_relative =
     [str [], str ''ftp'', str ''http'', str ''gopher'', str ''nntp'', str ''imap'',
      str ''wais'', str ''file'', str ''https'', str ''shttp'', str ''mms'',
      str ''prospero'', str ''rtsp'', str ''rtsps'', str ''rtspu'', str ''sftp'',
      str ''svn'', str ''svn+ssh'', str ''ws'', str ''wss'']"

definition uses_netloc :: "pystr list" where
  "uses_netloc =
     [str [], str ''ftp'', str ''http'', str ''gopher'', str ''nntp'', str ''telnet'',
      str ''imap'', str ''wais'', str ''file'', str ''mms'', str ''https'', str ''shttp'',
      str ''snews'', str ''prospero'', str ''rtsp'', str ''rtsps'', str ''rtspu'',
      str ''rsync'', str ''svn'', str ''svn+ssh'', str ''sftp'', str ''nfs'', str ''git'',
      str ''git+ssh'', str ''ws'', str ''wss'']"

definition uses_params :: "pystr list" where
  "uses_params =
     [str [], str ''ftp'', str ''hdl'', str ''prospero'', str ''http'', str ''imap'',
      str ''https'', str ''shttp'', str ''rtsp'', str ''rtsps'', str ''rtspu'', str ''sip'',
      str ''sips'', str ''mms'', str ''sftp'', str ''tel'']"

definition scheme_chars :: pystr where
  "scheme_chars =
     str ''abcdefghijklmnopqrstuvwxyzABCDEFGHIJKLMNOPQRSTUVWXYZ0123456789+-.''"

text \<open>
  \<open>s.lstrip(_WHATWG_C0_CONTROL_OR_SPACE)\<close>, \<open>s.strip(...)\<close> of the same characters (code
  points up to \<open>0x20\<close>), and the removal of tab, carriage return and line feed.
\<close>

definition lstrip_c0 :: "pystr \<Rightarrow> pystr" where
  "lstrip_c0 s = dropWhile (\<lambda>c. c \<le> 0x20) s"

definition strip_c0 :: "pystr \<Rightarrow> pystr" where
  "strip_c0 s = rev (lstrip_c0 (rev (lstrip_c0 s)))"

definition remove_unsafe :: "pystr \<Rightarrow> pystr" where
  "remove_unsafe s = filter (\<lambda>c. c \<noteq> 9 \<and> c \<noteq> 13 \<and> c \<noteq> 10) s"

text \<open>\<open>a, b = s.split(c, 1)\<close> for a string that holds \<open>c\<close>: around its first occurrence.\<close>

definition split_first :: "nat \<Rightarrow> pystr \<Rightarrow> pystr \<times> pystr" where
  "split_first c s = (takeWhile (\<lambda>x. x \<noteq> c) s, drop 1 (dropWhile (\<lambda>x. x \<noteq> c) s))"

text \<open>\<open>s.split(c)\<close>: the pieces between all occurrences, never an empty list.\<close>

fun split :: "nat \<Rightarrow> pystr \<Rightarrow> pystr list" where
  "split c [] = [[]]"
| "split c (x # xs) =
     (let r = split c xs in if x = c then [] # r else (x # hd r) # tl r)"

definition is_ascii_alpha :: "nat \<Rightarrow> bool" where
  "is_ascii_alpha c = ((0x41 \<le> c \<and> c \<le> 0x5A) \<or> (0x61 \<le> c \<and> c \<le> 0x7A))"

text \<open>\<open>s.lower()\<close> as it acts on scheme characters.\<close>

definition ascii_lower :: "nat \<Rightarrow> nat" where
  "ascii_lower c = (if 0x41 \<le> c \<and> c \<le> 0x5A then c + 0x20 else c)"

text \<open>
  The scheme of \<open>urlsplit\<close>: the text before the first colon when that is not empty,
  starts with an ASCII letter and holds scheme characters only; the default otherwise.
\<close>

definition split_scheme :: "pystr \<Rightarrow> pystr \<Rightarrow> pystr \<times> pystr" where
  "split_scheme u scheme =
     (let pre = takeWhile (\<lambda>c. c \<noteq> of_char CHR '':'') u
      in if of_char CHR '':'' \<in> set u \<and> pre \<noteq> [] \<and> is_ascii_alpha (hd u) \<and>
            list_all (\<lambda>c. c \<in> set scheme_chars) pre
         then (map ascii_lower pre, drop (length pre + 1) u)
         else (scheme, u))"

text \<open>\<open>_splitnetloc(url, 2)\<close>: the text after \<open>//\<close> up to the first of \<open>/?#\<close>, and the rest.\<close>

definition splitnetloc :: "pystr \<Rightarrow> pystr \<times> pystr" where
  "splitnetloc u =
     (let d = takeWhile (\<lambda>c. c \<notin> set (str ''/?#'')) (drop 2 u)
      in (d, drop (length d) (drop 2 u)))"

definition check_brackets :: "env \<Rightarrow> pystr \<Rightarrow> unit result" where
  "check_brackets env netloc =
     (let l = of_char CHR ''['' \<in> set netloc; r = of_char CHR '']'' \<in> set netloc
      in if (l \<and> \<not> r) \<or> (r \<and> \<not> l) then Inl ValueError
         else if l \<and> r then
           (if bracketed_host_ok env
                 (fst (split_first (of_char CHR '']'')
                   (snd (split_first (of_char CHR ''['') netloc))))
            then Inr () else Inl ValueError)
         else Inr ())"

definition checknetloc :: "env \<Rightarrow> pystr \<Rightarrow> unit result" where
  "checknetloc env netloc =
     (if netloc = [] \<or> list_all (\<lambda>c. c < 0x80) netloc then Inr ()
      else
        let n = filter (\<lambda>c. c \<notin> set (str ''@:#?'')) netloc; netloc2 = nfkc env n
        in if n = netloc2 then Inr ()
           else if list_ex (\<lambda>c. c \<in> set netloc2) (str ''/?#@:'') then Inl ValueError
           else Inr ())"

definition urlsplit ::
  "env \<Rightarrow> pystr \<Rightarrow> pystr \<Rightarrow> (pystr \<times> pystr \<times> pystr \<times> pystr \<times> pystr) result" where
  "urlsplit env u scheme =
     (case split_scheme (remove_unsafe (lstrip_c0 u)) (remove_unsafe (strip_c0 scheme)) of
        (scheme, u) \<Rightarrow>
          bind (if take 2 u = str ''//''
                then (case splitnetloc u of (netloc, u) \<Rightarrow>
                        bind (check_brackets env netloc) (\<lambda>_. Inr (netloc, u)))
                else Inr ([], u)) (\<lambda>(netloc, u).
          case (if of_char CHR ''#'' \<in> set u then split_first (of_char CHR ''#'') u
                else (u, [])) of
            (u, fragment) \<Rightarrow>
              (case (if of_char CHR ''?'' \<in> set u then split_first (of_char CHR ''?'') u
                     else (u, [])) of
                 (u, query) \<Rightarrow>
                   bind (checknetloc env netloc) (\<lambda>_.
                   Inr (scheme, netloc, u, query, fragment)))))"

text \<open>
  \<open>_splitparams\<close>: at the first semicolon of the last path segment; a path without a
  slash is cut at its first semicolon, and as the slices \<open>url[:-1]\<close>, \<open>url[0:]\<close> when it
  has none.
\<close>

definition splitparams :: "pystr \<Rightarrow> pystr \<times> pystr" where
  "splitparams u =
     (if of_char CHR ''/'' \<in> set u then
        let seg = rev (takeWhile (\<lambda>c. c \<noteq> of_char CHR ''/'') (rev u));
            pre = take (length u - length seg) u
        in if of_char CHR '';'' \<in> set seg
           then (pre @ fst (split_first (of_char CHR '';'') seg),
                 snd (split_first (of_char CHR '';'') seg))
           else (u, [])
      else if of_char CHR '';'' \<in> set u then split_first (of_char CHR '';'') u
      else (butlast u, u))"

definition urlparse ::
  "env \<Rightarrow> pystr \<Rightarrow> pystr \<Rightarrow> (pystr \<times> pystr \<times> pystr \<times> pystr \<times> pystr \<times> pystr) result" where
  "urlparse env u scheme =
     bind (urlsplit env u scheme) (\<lambda>(scheme, netloc, u, query, fragment).
     case (if scheme \<in> set uses_params \<and> of_char CHR '';'' \<in> set u then splitparams u
           else (u, [])) of
       (u, params) \<Rightarrow> Inr (scheme, netloc, u, params, query, fragment))"

definition urlunsplit :: "pystr \<times> pystr \<times> pystr \<times> pystr \<times> pystr \<Rightarrow> pystr" where
  "urlunsplit components =
     (case components of (scheme, netloc, u, query, fragment) \<Rightarrow>
        let u1 = (if netloc \<noteq> [] \<or> (scheme \<noteq> [] \<and> scheme \<in> set uses_netloc) \<or>
                     take 2 u = str ''//''
                  then str ''//'' @ netloc @
                       (if u \<noteq> [] \<and> take 1 u \<noteq> str ''/'' then str ''/'' @ u else u)
                  else u);
            u2 = (if scheme \<noteq> [] then scheme @ str '':'' @ u1 else u1);
            u3 = (if query \<noteq> [] then u2 @ str ''?'' @ query else u2)
        in if fragment \<noteq> [] then u3 @ str ''#'' @ fragment else u3)"

definition urlunparse :: "pystr \<times> pystr \<times> pystr \<times> pystr \<times> pystr \<times> pystr \<Rightarrow> pystr" where
  "urlunparse components =
     (case components of (scheme, netloc, u, params, query, fragment) \<Rightarrow>
        urlunsplit (scheme, netloc, (if params \<noteq> [] then u @ str '';'' @ params else u),
                    query, fragment))"

text \<open>\<open>segments[1:-1] = filter(None, segments[1:-1])\<close>.\<close>

fun drop_empty_inner :: "pystr list \<Rightarrow> pystr list" where
  "drop_empty_inner [] = []"
| "drop_empty_inner [x] = [x]"
| "drop_empty_inner (x # y # ys) =
     x # filter (\<lambda>seg. seg \<noteq> []) (butlast (y # ys)) @ [last (y # ys)]"

text \<open>
  The loop over the segments: \<open>..\<close> pops the resolved path (an empty one stays empty),
  \<open>.\<close> is skipped, any other segment is appended.
\<close>

fun resolve :: "pystr list \<Rightarrow> pystr list \<Rightarrow> pystr list" where
  "resolve resolved_path [] = resolved_path"
| "resolve resolved_path (seg # segments) =
     resolve (if seg = str ''..'' then butlast resolved_path
              else if seg = str ''.'' then resolved_path
              else resolved_path @ [seg]) segments"

definition urljoin_str :: "env \<Rightarrow> pystr \<Rightarrow> pystr \<Rightarrow> pystr result" where
  "urljoin_str env base u =
     bind (urlparse env base []) (\<lambda>(bscheme, bnetloc, bpath, bparams, bquery, bfragment).
     bind (urlparse env u bscheme) (\<lambda>(scheme, netloc, path, params, query, fragment).
       if scheme \<noteq> bscheme \<or> scheme \<notin> set uses_relative then Inr u
       else if scheme \<in> set uses_netloc \<and> netloc \<noteq> [] then
         Inr (urlunparse (scheme, netloc, path, params, query, fragment))
       else
         let netloc = (if scheme \<in> set uses_netloc then bnetloc else netloc) in
         if path = [] \<and> params = [] then
           Inr (urlunparse (scheme, netloc, bpath, bparams,
                            (if query = [] then bquery else query), fragment))
         else
           let parts = split (of_char CHR ''/'') bpath;
               base_parts = (if last parts \<noteq> [] then butlast parts else parts);
               segments = (if take 1 path = str ''/'' then split (of_char CHR ''/'') path
                           else drop_empty_inner
                                  (base_parts @ split (of_char CHR ''/'') path));
               resolved_path = resolve [] segments;
               resolved_path = (if last segments = str ''.'' \<or> last segments = str ''..''
                                then resolved_path @ [[]] else resolved_path);
               joined = join (str ''/'') resolved_path
           in Inr (urlunparse (scheme, netloc, (if joined = [] then str ''/'' else joined),
                               params, query, fragment))))"

text \<open>Truth value of an object, as \<open>not url\<close> tests it.\<close>

fun truthy :: "json \<Rightarrow> bool" where
  "truthy JNull = False"
| "truthy (JBool b) = b"
| "truthy (JInt n) = (n \<noteq> 0)"
| "truthy (JFloat x) = (x \<noteq> Finite 0)"
| "truthy (JStr s) = (s \<noteq> [])"
| "truthy (JArr xs) = (xs \<noteq> [])"
| "truthy (JObj m) = (m \<noteq> fmempty)"

text \<open>
  \<open>urljoin(base, url)\<close> for a \<open>str\<close> base and any object as \<open>url\<close>: an empty base gives
  the object back, a false object gives the base, and a true object that is no \<open>str\<close>
  is refused by \<open>_coerce_args\<close>.
\<close>

definition urljoin :: "env \<Rightarrow> pystr \<Rightarrow> json \<Rightarrow> json result" where
  "urljoin env base u =
     (if base = [] then Inr u
      else if \<not> truthy u then Inr (JStr base)
      else (case u of
              JStr s \<Rightarrow> bind (urljoin_str env base s) (\<lambda>r. Inr (JStr r))
            | _ \<Rightarrow> Inl TypeError))"

section \<open>Forms of URL references\<close>

text \<open>
  The shapes of canonical URLs about which the resolution is characterised. A reference is
  written as a path followed by a query part and a fragment part, each empty or its
  delimiter and a non-empty text; none holds a tab, carriage return or line feed.
\<close>

definition unsafe_free :: "pystr \<Rightarrow> bool" where
  "unsafe_free s = list_all (\<lambda>c. c \<noteq> 9 \<and> c \<noteq> 13 \<and> c \<noteq> 10) s"

definition query_part :: "pystr \<Rightarrow> bool" where
  "query_part qs =
     (qs = [] \<or>
      (take 1 qs = str ''?'' \<and> tl qs \<noteq> [] \<and> unsafe_free qs \<and> of_char CHR ''#'' \<notin> set qs))"

definition fragment_part :: "pystr \<Rightarrow> bool" where
  "fragment_part fs = (fs = [] \<or> (take 1 fs = str ''#'' \<and> tl fs \<noteq> [] \<and> unsafe_free fs))"

text \<open>
  A site-relative path in plain form: it starts with one slash, not two, and has no
  parameter, query or fragment delimiter and no \<open>.\<close> or \<open>..\<close> segment.
\<close>

definition plain_path :: "pystr \<Rightarrow> bool" where
  "plain_path p =
     (take 1 p = str ''/'' \<and> take 2 p \<noteq> str ''//'' \<and> unsafe_free p \<and>
      list_all (\<lambda>c. c \<notin> set (str ''?#;'')) p \<and>
      list_all (\<lambda>seg. seg \<noteq> str ''.'' \<and> seg \<noteq> str ''..'') (split (of_char CHR ''/'') p))"

text \<open>
  The parts of an absolute URL \<open>scheme://host/path\<close>: a scheme name, a non-empty ASCII
  host without brackets, and a path that is empty or starts with a slash.
\<close>

definition valid_scheme :: "pystr \<Rightarrow> bool" where
  "valid_scheme s =
     (s \<noteq> [] \<and> is_ascii_alpha (hd s) \<and> list_all (\<lambda>c. c \<in> set scheme_chars) s)"

definition plain_host :: "pystr \<Rightarrow> bool" where
  "plain_host h =
     (h \<noteq> [] \<and> unsafe_free h \<and>
      list_all (\<lambda>c. c < 0x80 \<and> c \<notin> set (str ''/?#[]'')) h)"

definition abs_path :: "pystr \<Rightarrow> bool" where
  "abs_path p =
     (p = [] \<or>
      (take 1 p = str ''/'' \<and> unsafe_free p \<and> list_all (\<lambda>c. c \<notin> set (str ''?#;'')) p))"

section \<open>Collection\<close>

text \<open>
  \<open>[urljoin("https://www.walmart.com/", product_preview["canonicalUrl"])
     for product_preview in search_results]\<close> over the previews in order.
\<close>

fun product_urls :: "env \<Rightarrow> json list \<Rightarrow> json list result" where
  "product_urls env [] = Inr []"
| "product_urls env (product_preview # search_results) =
     bind (subscript product_preview (KStr (str ''canonicalUrl''))) (\<lambda>c.
     bind (urljoin env (str ''https://www.walmart.com/'') c) (\<lambda>u.
     bind (product_urls env search_results) (\<lambda>us. Inr (u # us))))"

text \<open>What iterating over the result of \<open>discover_walmart\<close> yields.\<close>

fun preview_list :: "previews \<Rightarrow> json list" where
  "preview_list (PList xs) = xs"
| "preview_list PEmptyDict = []"

text \<open>
  \<open>_scrape_products_by_url\<close> and \<open>scrape_walmart\<close>, each with the requests handed to the
  scraping client.
\<close>

definition scrape_products_by_url ::
  "env \<Rightarrow> json list \<Rightarrow> json list result \<times> scrape_config list" where
  "scrape_products_by_url env urls =
     (collect_products env [] (concurrent_scrape env (map ScrapeConfig urls)),
      map ScrapeConfig urls)"

definition scrape_walmart :: "env \<Rightarrow> pystr \<Rightarrow> json list result \<times> scrape_config list" where
  "scrape_walmart env search =
     (case discover_walmart env search of
        (Inl e, requests) \<Rightarrow> (Inl e, requests)
      | (Inr search_results, requests) \<Rightarrow>
          (case product_urls env (preview_list search_results) of
             Inl e \<Rightarrow> (Inl e, requests)
           | Inr urls \<Rightarrow>
               (case scrape_products_by_url env urls of
                  (r, requests') \<Rightarrow> (r, requests @ requests'))))"








section \<open>Sample pages\<close>

text \<open>Concrete pages and collaborators on which the theorems below are instantiated.\<close>

definition obj :: "(string \<times> json) list \<Rightarrow> json" where
  "obj kvs = JObj (fmap_of_list (map (\<lambda>(k, v). (str k, v)) kvs))"

definition sample_env :: "json result \<Rightarrow> env" where
  "sample_env d = \<lparr>json_loads = (\<lambda>t. d), fetch = (\<lambda>c. \<lparr>next_data = None\<rparr>),
                    deliver = (\<lambda>cs. cs), nfkc = (\<lambda>s. s), bracketed_host_ok = (\<lambda>s. True)\<rparr>"

definition sample_entries :: "json list" where
  "sample_entries =
     [obj [(''__typename'', JStr (str ''Product'')), (''canonicalUrl'', JStr (str ''/ip/a/1''))],
      obj [(''__typename'', JStr (str ''AdPlaceholder''))],
      obj [(''__typename'', JStr (str ''Product'')), (''canonicalUrl'', JStr (str ''/ip/b/2''))]]"

definition sample_stack :: "(pystr, json) fmap" where
  "sample_stack =
     fmap_of_list [(str ''count'', JInt 1050), (str ''items'', JArr sample_entries)]"

definition sample_search_doc :: json where
  "sample_search_doc =
     obj [(''props'', obj [(''pageProps'', obj [(''initialData'',
       obj [(''searchResult'', obj [(''itemStacks'', JArr [JObj sample_stack])])])])])]"

definition sample_product_raw :: "(pystr, json) fmap" where
  "sample_product_raw =
     fmap_of_list [(str ''name'', JStr (str ''Widget'')), (str ''usItemId'', JStr (str ''1'')),
                   (str ''id'', JStr (str ''A1'')), (str ''sellerName'', JStr (str ''Acme''))]"

definition sample_reviews :: json where
  "sample_reviews = obj [(''totalReviewCount'', JInt 3), (''customerReviews'', JArr [])]"

definition sample_product_doc :: json where
  "sample_product_doc =
     obj [(''props'', obj [(''pageProps'', obj [(''initialData'',
       obj [(''data'', obj [(''product'', JObj sample_product_raw),
                            (''reviews'', sample_reviews)])])])])]"

text \<open>A page whose blob is present and lacks the fields under \<open>initialData\<close>.\<close>

definition sample_malformed_doc :: json where
  "sample_malformed_doc =
     obj [(''props'', obj [(''pageProps'', obj [(''initialData'', obj [])])])]"

text \<open>The second search page of the shop: one more product preview.\<close>

definition sample_second_stack :: json where
  "sample_second_stack =
     obj [(''count'', JInt 1050),
          (''items'', JArr [obj [(''__typename'', JStr (str ''Product'')),
                                 (''canonicalUrl'', JStr (str ''/ip/c/3''))]])]"

definition sample_second_doc :: json where
  "sample_second_doc =
     obj [(''props'', obj [(''pageProps'', obj [(''initialData'',
       obj [(''searchResult'', obj [(''itemStacks'', JArr [sample_second_stack])])])])])]"

text \<open>The product page of that preview.\<close>

definition sample_gadget_doc :: json where
  "sample_gadget_doc =
     obj [(''props'', obj [(''pageProps'', obj [(''initialData'',
       obj [(''data'', obj [(''product'', obj [(''name'', JStr (str ''Gadget'')),
                                               (''usItemId'', JStr (str ''3''))]),
                            (''reviews'', sample_reviews)])])])])]"

text \<open>
  A shop of canned pages: the first search page for \<open>widgets\<close> holds the sample stack, the
  second one more preview, and the search pages 3 to 25 have no blob; the product page of
  the preview \<open>/ip/a/1\<close> holds the sample product, that of \<open>/ip/c/3\<close> the gadget, and that
  of \<open>/ip/b/2\<close> has no blob. Batches are delivered in reverse order.
\<close>

definition shop_env :: env where
  "shop_env =
     \<lparr>json_loads = (\<lambda>t. if t = str ''search'' then Inr sample_search_doc
                         else if t = str ''search2'' then Inr sample_second_doc
                         else if t = str ''product'' then Inr sample_product_doc
                         else if t = str ''gadget'' then Inr sample_gadget_doc
                         else Inl JSONDecodeError),
      fetch = (\<lambda>c. if config_url c = JStr (str
                        ''https://www.walmart.com/search?q=widgets&sort=price_low&page=1&affinityOverride=default'')
                    then \<lparr>next_data = Some (str ''search'')\<rparr>
                    else if config_url c = JStr (str
                        ''https://www.walmart.com/search?q=widgets&sort=price_low&page=2&affinityOverride=default'')
                    then \<lparr>next_data = Some (str ''search2'')\<rparr>
                    else if config_url c = JStr (str ''https://www.walmart.com/ip/a/1'')
                    then \<lparr>next_data = Some (str ''product'')\<rparr>
                    else if config_url c = JStr (str ''https://www.walmart.com/ip/c/3'')
                    then \<lparr>next_data = Some (str ''gadget'')\<rparr>
                    else \<lparr>next_data = None\<rparr>),
      deliver = rev, nfkc = (\<lambda>s. s), bracketed_host_ok = (\<lambda>s. False)\<rparr>"

text \<open>Pages that all report the total count \<open>n\<close> and no items.\<close>

definition count_doc :: "int \<Rightarrow> json" where
  "count_doc n =
     obj [(''props'', obj [(''pageProps'', obj [(''initialData'',
       obj [(''searchResult'', obj [(''itemStacks'',
         JArr [obj [(''count'', JInt n), (''items'', JArr [])]])])])])])]"

definition count_env :: "int \<Rightarrow> env" where
  "count_env n =
     \<lparr>json_loads = (\<lambda>t. Inr (count_doc n)), fetch = (\<lambda>c. \<lparr>next_data = Some (str ''{}'')\<rparr>),
      deliver = (\<lambda>cs. cs), nfkc = (\<lambda>s. s), bracketed_host_ok = (\<lambda>s. False)\<rparr>"

section \<open>Properties of the page parser\<close>

lemma bind_Inr [simp]: "bind (Inr x) f = f x"
  by (simp add: bind_def)

lemma bind_Inl [simp]: "bind (Inl e) f = Inl e"
  by (simp add: bind_def)

lemma get_path_append:
  "get_path v (p @ q) = bind (get_path v p) (\<lambda>w. get_path w q)"
  by (induction p arbitrary: v) (simp_all add: bind_def split: sum.splits)

lemma get_path_field:
  "get_path v p = Inr (JObj m) \<Longrightarrow>
   get_path v (p @ [KStr k]) = (case fmlookup m k of None \<Rightarrow> Inl KeyError | Some w \<Rightarrow> Inr w)"
  by (simp add: get_path_append split: option.splits)

lemma product_items_typed:
  "\<forall>x\<in>set xs. \<exists>m t. x = JObj m \<and> fmlookup m (str ''__typename'') = Some t \<Longrightarrow>
   product_items xs =
     Inr (filter (\<lambda>x. subscript x (KStr (str ''__typename'')) = Inr (JStr (str ''Product''))) xs)"
  by (induction xs) auto

text \<open>
  C5. A document with no script element \<open>__NEXT_DATA__\<close> gives \<open>parse_search\<close> an empty
  preview collection and the total count 0, a returned value and not an exception.
\<close>

theorem parse_search_no_data:
  "next_data result = None \<Longrightarrow> parse_search env result = Inr (PEmptyDict, JInt 0)"
  by (simp add: parse_search_def)

theorem parse_search_no_data_witness:
  "next_data \<lparr>next_data = None\<rparr> = None \<and>
   parse_search \<lparr>json_loads = (\<lambda>t. Inl JSONDecodeError), fetch = (\<lambda>c. \<lparr>next_data = None\<rparr>),
                 deliver = (\<lambda>cs. cs), nfkc = (\<lambda>s. s), bracketed_host_ok = (\<lambda>s. True)\<rparr>
     \<lparr>next_data = None\<rparr> = Inr (PEmptyDict, JInt 0)"
  using parse_search_no_data [of "\<lparr>next_data = None\<rparr>"] by simp

text \<open>
  C6. A document with no script element \<open>__NEXT_DATA__\<close> gives \<open>parse_product\<close> no record
  at all (\<open>None\<close>, which is not an empty record), and the collecting loop passes over that
  page: it goes on with the remaining pages and the records collected so far, raising
  nothing for it.
\<close>

theorem parse_product_no_data:
  "next_data result = None \<Longrightarrow>
   parse_product env result = Inr None \<and>
   collect_products env results (result # rs) = collect_products env results rs"
  by (simp add: parse_product_def)

theorem parse_product_no_data_witness:
  "parse_product \<lparr>json_loads = (\<lambda>t. Inl JSONDecodeError), fetch = (\<lambda>c. \<lparr>next_data = None\<rparr>),
                  deliver = (\<lambda>cs. cs), nfkc = (\<lambda>s. s), bracketed_host_ok = (\<lambda>s. True)\<rparr>
     \<lparr>next_data = None\<rparr> = Inr None \<and>
   collect_products \<lparr>json_loads = (\<lambda>t. Inl JSONDecodeError), fetch = (\<lambda>c. \<lparr>next_data = None\<rparr>),
                     deliver = (\<lambda>cs. cs), nfkc = (\<lambda>s. s), bracketed_host_ok = (\<lambda>s. True)\<rparr>
     [JNull] [\<lparr>next_data = None\<rparr>] = Inr [JNull]"
  using parse_product_no_data [of "\<lparr>next_data = None\<rparr>" _ "[JNull]" "[]"] by simp

text \<open>
  C2. When the embedded blob is present and the first item stack (the element 0 of
  \<open>props.pageProps.initialData.searchResult.itemStacks\<close>) holds a count and a list
  of entries that each carry a type discriminator, \<open>parse_search\<close> returns exactly the
  entries whose discriminator is \<open>"Product"\<close>, in their original order, together with the
  count the first stack reports, whatever the number of entries kept.
\<close>

theorem parse_search_products_only:
  assumes "next_data result = Some text"
    and "json_loads env text = Inr data"
    and "get_path data [KStr (str ''props''), KStr (str ''pageProps''), KStr (str ''initialData''),
                        KStr (str ''searchResult''), KStr (str ''itemStacks''), KInt 0] =
           Inr (JObj stack)"
    and "fmlookup stack (str ''count'') = Some total_results"
    and "fmlookup stack (str ''items'') = Some (JArr entries)"
    and "\<forall>x\<in>set entries. \<exists>m t. x = JObj m \<and> fmlookup m (str ''__typename'') = Some t"
  shows "parse_search env result =
           Inr (PList (filter (\<lambda>x. subscript x (KStr (str ''__typename'')) =
                                     Inr (JStr (str ''Product''))) entries),
                total_results)"
proof -
  have p: "get_path data stack_path = Inr (JObj stack)"
    using assms(3) by (simp only: stack_path_def)
  have c: "get_path data (stack_path @ [KStr (str ''count'')]) = Inr total_results"
    using p assms(4) by (simp add: get_path_field)
  have i: "get_path data (stack_path @ [KStr (str ''items'')]) = Inr (JArr entries)"
    using p assms(5) by (simp add: get_path_field)
  show ?thesis
    unfolding parse_search_def using assms(1,2,6) c i
    by (simp add: product_items_typed)
qed

theorem parse_search_products_only_witness:
  "parse_search (sample_env (Inr sample_search_doc)) \<lparr>next_data = Some (str ''{}'')\<rparr> =
     Inr (PList [sample_entries ! 0, sample_entries ! 2], JInt 1050)"
proof -
  have p: "get_path sample_search_doc
             [KStr (str ''props''), KStr (str ''pageProps''), KStr (str ''initialData''),
              KStr (str ''searchResult''), KStr (str ''itemStacks''), KInt 0] =
           Inr (JObj sample_stack)"
    by (simp add: sample_search_doc_def obj_def str_def seq_index_def)
  have t: "\<forall>x\<in>set sample_entries.
             \<exists>m t. x = JObj m \<and> fmlookup m (str ''__typename'') = Some t"
    by (simp add: sample_entries_def obj_def str_def)
  show ?thesis
    using parse_search_products_only
      [of "\<lparr>next_data = Some (str ''{}'')\<rparr>" "str ''{}''" "sample_env (Inr sample_search_doc)"
          sample_search_doc sample_stack "JInt 1050" sample_entries, OF _ _ p _ _ t]
    by (simp add: sample_env_def sample_stack_def sample_entries_def obj_def str_def)
qed

text \<open>
  C4. When the embedded blob is present and holds a product object and a reviews object at
  the fixed path, \<open>parse_product\<close> returns a record whose product mapping is the raw
  product restricted to the allow-list: its keys are among the twelve listed keys, whatever
  other keys the raw object has, and each kept key has its raw value. The reviews object is
  paired with it as it is.
\<close>

theorem parse_product_allow_list:
  assumes "next_data result = Some text"
    and "json_loads env text = Inr data"
    and "get_path data data_path = Inr (JObj d)"
    and "fmlookup d (str ''product'') = Some (JObj raw)"
    and "fmlookup d (str ''reviews'') = Some reviews"
  shows "\<exists>product.
           parse_product env result =
             Inr (Some (JObj (fmap_of_list
               [(str ''product'', JObj product), (str ''reviews'', reviews)]))) \<and>
           fmdom' product =
             fmdom' raw \<inter>
             set (map str [''availabilityStatus'', ''averageRating'', ''brand'', ''id'',
                           ''imageInfo'', ''manufacturerName'', ''name'', ''orderLimit'',
                           ''orderMinLimit'', ''priceInfo'', ''shortDescription'', ''type'']) \<and>
           (\<forall>k\<in>fmdom' product. fmlookup product k = fmlookup raw k)"
proof -
  let ?product = "fmfilter (\<lambda>k. k \<in> set wanted_product_keys) raw"
  have p: "get_path data (data_path @ [KStr (str ''product'')]) = Inr (JObj raw)"
    using assms(3,4) by (simp add: get_path_field)
  have r: "get_path data (data_path @ [KStr (str ''reviews'')]) = Inr reviews"
    using assms(3,5) by (simp add: get_path_field)
  have "parse_product env result =
          Inr (Some (JObj (fmap_of_list
            [(str ''product'', JObj ?product), (str ''reviews'', reviews)])))"
    unfolding parse_product_def using assms(1,2) p r by simp
  moreover have "fmdom' ?product =
      fmdom' raw \<inter>
      set (map str [''availabilityStatus'', ''averageRating'', ''brand'', ''id'',
                    ''imageInfo'', ''manufacturerName'', ''name'', ''orderLimit'',
                    ''orderMinLimit'', ''priceInfo'', ''shortDescription'', ''type''])"
    by (auto simp: wanted_product_keys_def)
  moreover have "\<forall>k\<in>fmdom' ?product. fmlookup ?product k = fmlookup raw k"
    by auto
  ultimately show ?thesis by blast
qed

theorem parse_product_allow_list_witness:
  "\<exists>product.
     parse_product (sample_env (Inr sample_product_doc)) \<lparr>next_data = Some (str ''{}'')\<rparr> =
       Inr (Some (JObj (fmap_of_list
         [(str ''product'', JObj product), (str ''reviews'', sample_reviews)]))) \<and>
     fmdom' product = {str ''name'', str ''id''} \<and>
     fmlookup product (str ''name'') = Some (JStr (str ''Widget'')) \<and>
     fmlookup product (str ''id'') = Some (JStr (str ''A1''))"
proof -
  have p: "get_path sample_product_doc data_path =
             Inr (JObj (fmap_of_list [(str ''product'', JObj sample_product_raw),
                                      (str ''reviews'', sample_reviews)]))"
    by (simp add: sample_product_doc_def obj_def data_path_def str_def)
  have n: "next_data \<lparr>next_data = Some (str ''{}'')\<rparr> = Some (str ''{}'')"
    by simp
  have l: "json_loads (sample_env (Inr sample_product_doc)) (str ''{}'') = Inr sample_product_doc"
    by (simp add: sample_env_def)
  have f: "fmlookup (fmap_of_list [(str ''product'', JObj sample_product_raw),
                                   (str ''reviews'', sample_reviews)]) (str ''product'') =
             Some (JObj sample_product_raw)"
    by simp
  have g: "fmlookup (fmap_of_list [(str ''product'', JObj sample_product_raw),
                                   (str ''reviews'', sample_reviews)]) (str ''reviews'') =
             Some sample_reviews"
    by (simp add: str_def)
  have dom: "fmdom' sample_product_raw =
               {str ''name'', str ''usItemId'', str ''id'', str ''sellerName''}"
    by (auto simp: sample_product_raw_def fmdom'_alt_def)
  obtain product where
    a: "parse_product (sample_env (Inr sample_product_doc)) \<lparr>next_data = Some (str ''{}'')\<rparr> =
          Inr (Some (JObj (fmap_of_list
            [(str ''product'', JObj product), (str ''reviews'', sample_reviews)])))"
    and b: "fmdom' product =
          fmdom' sample_product_raw \<inter>
          set (map str [''availabilityStatus'', ''averageRating'', ''brand'', ''id'',
                        ''imageInfo'', ''manufacturerName'', ''name'', ''orderLimit'',
                        ''orderMinLimit'', ''priceInfo'', ''shortDescription'', ''type''])"
    and c: "\<forall>k\<in>fmdom' product. fmlookup product k = fmlookup sample_product_raw k"
    using parse_product_allow_list
      [of "\<lparr>next_data = Some (str ''{}'')\<rparr>" "str ''{}''" "sample_env (Inr sample_product_doc)"
          sample_product_doc _ sample_product_raw sample_reviews, OF n l p f g]
    by blast
  have b': "fmdom' product = {str ''name'', str ''id''}"
    unfolding b dom by (auto simp: str_def)
  have "fmlookup product (str ''name'') = Some (JStr (str ''Widget''))"
    using c b' by (simp add: sample_product_raw_def str_def)
  moreover have "fmlookup product (str ''id'') = Some (JStr (str ''A1''))"
    using c b' by (simp add: sample_product_raw_def str_def)
  ultimately show ?thesis using a b' by blast
qed

text \<open>
  C7. When the embedded blob is present and a subscription on the fixed path fails (a
  missing field is a \<open>KeyError\<close>, a missing first item stack an \<open>IndexError\<close>), neither
  parser returns a value: \<open>parse_search\<close> and \<open>parse_product\<close> raise, and so do the loops
  that call them, instead of yielding an empty result or passing over the page. The loop
  over search pages raises the parser's own error when the previews gathered so far are a
  list; when they are the \<open>{}\<close> of a first page without data, \<open>previews.extend\<close> raises
  \<open>AttributeError\<close> before the parser is called.
\<close>

theorem malformed_shape_raises:
  assumes "next_data result = Some text"
    and "json_loads env text = Inr data"
  shows "(get_path data (stack_path @ [KStr (str ''count'')]) = Inl e \<or>
          get_path data (stack_path @ [KStr (str ''items'')]) = Inl e \<longrightarrow>
            (\<exists>e'. parse_search env result = Inl e' \<and>
                  extend_all env previews (result # rs) =
                    Inl (case previews of PList xs \<Rightarrow> e' | PEmptyDict \<Rightarrow> AttributeError))) \<and>
         (get_path data (data_path @ [KStr (str ''product'')]) = Inl e \<or>
          get_path data (data_path @ [KStr (str ''reviews'')]) = Inl e \<longrightarrow>
            (\<exists>e'. parse_product env result = Inl e' \<and>
                  collect_products env results (result # rs) = Inl e'))"
proof -
  have s: "\<exists>e'. parse_search env result = Inl e'"
    if "get_path data (stack_path @ [KStr (str ''count'')]) = Inl e \<or>
        get_path data (stack_path @ [KStr (str ''items'')]) = Inl e"
    using that assms unfolding parse_search_def
    by (auto simp: bind_def split: sum.splits)
  have p: "\<exists>e'. parse_product env result = Inl e'"
    if "get_path data (data_path @ [KStr (str ''product'')]) = Inl e \<or>
        get_path data (data_path @ [KStr (str ''reviews'')]) = Inl e"
    using that assms unfolding parse_product_def
    by (auto simp: bind_def Let_def split: sum.splits)
  show ?thesis
  proof (intro conjI impI)
    assume "get_path data (stack_path @ [KStr (str ''count'')]) = Inl e \<or>
            get_path data (stack_path @ [KStr (str ''items'')]) = Inl e"
    then obtain e' where "parse_search env result = Inl e'" using s by blast
    then show "\<exists>e'. parse_search env result = Inl e' \<and>
                    extend_all env previews (result # rs) =
                      Inl (case previews of PList xs \<Rightarrow> e' | PEmptyDict \<Rightarrow> AttributeError)"
      by (cases previews) simp_all
  next
    assume "get_path data (data_path @ [KStr (str ''product'')]) = Inl e \<or>
            get_path data (data_path @ [KStr (str ''reviews'')]) = Inl e"
    then obtain e' where "parse_product env result = Inl e'" using p by blast
    then show "\<exists>e'. parse_product env result = Inl e' \<and>
                    collect_products env results (result # rs) = Inl e'"
      by simp
  qed
qed

theorem malformed_shape_raises_witness:
  "parse_search (sample_env (Inr sample_malformed_doc)) \<lparr>next_data = Some (str ''{}'')\<rparr> =
     Inl KeyError \<and>
   extend_all (sample_env (Inr sample_malformed_doc)) (PList [])
     [\<lparr>next_data = Some (str ''{}'')\<rparr>] = Inl KeyError \<and>
   extend_all (sample_env (Inr sample_malformed_doc)) PEmptyDict
     [\<lparr>next_data = Some (str ''{}'')\<rparr>] = Inl AttributeError \<and>
   parse_product (sample_env (Inr sample_malformed_doc)) \<lparr>next_data = Some (str ''{}'')\<rparr> =
     Inl KeyError \<and>
   collect_products (sample_env (Inr sample_malformed_doc)) []
     [\<lparr>next_data = Some (str ''{}'')\<rparr>] = Inl KeyError"
proof -
  have c: "get_path sample_malformed_doc (stack_path @ [KStr (str ''count'')]) = Inl KeyError"
    by (simp add: sample_malformed_doc_def obj_def stack_path_def str_def)
  have d: "get_path sample_malformed_doc (data_path @ [KStr (str ''product'')]) = Inl KeyError"
    by (simp add: sample_malformed_doc_def obj_def data_path_def str_def)
  have l: "json_loads (sample_env (Inr sample_malformed_doc)) (str ''{}'') =
             Inr sample_malformed_doc"
    by (simp add: sample_env_def)
  show ?thesis
    using malformed_shape_raises
      [of "\<lparr>next_data = Some (str ''{}'')\<rparr>" "str ''{}''" "sample_env (Inr sample_malformed_doc)"
          sample_malformed_doc KeyError "PList []" "[]" "[]", OF _ l] c d
    by (auto simp: parse_search_def parse_product_def l)
qed

section \<open>Properties of the URL builder\<close>

lemma utf8_char_space:
  "utf8_char c = Inr bs \<Longrightarrow> (32 \<in> set bs \<longleftrightarrow> c = 32)"
  by (auto simp: utf8_char_def split: if_splits)

lemma utf8_encode_space:
  "utf8_encode q = Inr bs \<Longrightarrow> (32 \<in> set bs \<longleftrightarrow> 32 \<in> set q)"
proof (induction q arbitrary: bs)
  case Nil
  then show ?case by simp
next
  case (Cons c q)
  then show ?case
    by (auto simp: bind_def utf8_char_space split: sum.splits)
qed

lemma utf8_char_ok:
  "\<not> (0xD800 \<le> c \<and> c \<le> 0xDFFF) \<Longrightarrow> \<exists>bs. utf8_char c = Inr bs"
  by (simp add: utf8_char_def)

lemma utf8_encode_ok:
  "\<forall>c\<in>set q. \<not> (0xD800 \<le> c \<and> c \<le> 0xDFFF) \<Longrightarrow> \<exists>bs. utf8_encode q = Inr bs"
proof (induction q)
  case Nil
  then show ?case by simp
next
  case (Cons c q)
  then obtain bs rest where "utf8_char c = Inr bs" "utf8_encode q = Inr rest"
    using utf8_char_ok[of c] by auto
  then show ?case by simp
qed

lemma utf8_char_byte:
  "utf8_char c = Inr bs \<Longrightarrow> c < 0x110000 \<Longrightarrow> b \<in> set bs \<Longrightarrow> b < 256"
  by (auto simp: utf8_char_def split: if_splits)

lemma utf8_encode_byte:
  "utf8_encode q = Inr bs \<Longrightarrow> \<forall>c\<in>set q. c < 0x110000 \<Longrightarrow> \<forall>b\<in>set bs. b < 256"
proof (induction q arbitrary: bs)
  case Nil
  then show ?case by simp
next
  case (Cons c q)
  then show ?case
    by (auto simp: bind_def split: sum.splits dest: utf8_char_byte)
qed

lemma utf8_encode_Nil: "utf8_encode q = Inr [] \<longleftrightarrow> q = []"
  by (cases q) (auto simp: bind_def utf8_char_def split: sum.splits if_splits)

lemma hex_digit_not_space: "d < 16 \<Longrightarrow> hex_digit d \<noteq> 32"
proof -
  assume "d < 16"
  then have "d \<in> set [0..<16]" by simp
  then show ?thesis
    unfolding hex_digit_def str_def
    by (simp add: upt_rec numeral_eq_Suc, auto)
qed

lemma quoter_no_space:
  assumes "b < 256" "b \<noteq> 32"
  shows "map (\<lambda>c. if c = 32 then 43 else c) (quoter [32] b) = form_encode_byte b"
    and "quoter [] b = form_encode_byte b"
  using assms hex_digit_not_space[of "b div 16"] hex_digit_not_space[of "b mod 16"]
  by (auto simp: quoter_def form_encode_byte_def str_def)

lemma quoter_space:
  "map (\<lambda>c. if c = 32 then 43 else c) (quoter [32] 32) = form_encode_byte 32"
  by (simp add: quoter_def form_encode_byte_def str_def)

lemma quote_plus_form:
  assumes "utf8_encode q = Inr bs" and "\<forall>b\<in>set bs. b < 256"
  shows "quote_plus q = Inr (concat (map form_encode_byte bs))"
proof (cases "32 \<in> set q")
  case True
  then have "q \<noteq> []" by auto
  have "map (\<lambda>c. if c = 32 then 43 else c) (concat (map (quoter [32]) bs)) =
        concat (map form_encode_byte bs)"
    using assms(2)
  proof (induction bs)
    case Nil
    then show ?case by simp
  next
    case (Cons b bs)
    then show ?case
      using quoter_no_space(1)[of b] quoter_space by (cases "b = 32") auto
  qed
  then show ?thesis
    using True \<open>q \<noteq> []\<close> assms(1)
    by (simp add: quote_plus_def quote_def quote_from_bytes_def str_def cong: if_cong)
next
  case False
  then have "32 \<notin> set bs" using assms(1) utf8_encode_space by blast
  then have "map (quoter []) bs = map form_encode_byte bs"
    using assms(2) quoter_no_space(2) by (intro map_cong) auto
  then have eq: "concat (map (quoter []) bs) = concat (map form_encode_byte bs)"
    by (rule arg_cong)
  show ?thesis
  proof (cases "q = []")
    case True
    then show ?thesis using assms(1) by (simp add: quote_plus_def quote_def)
  next
    case False
    then show ?thesis
      using \<open>32 \<notin> set q\<close> assms(1) by (simp add: quote_plus_def quote_def quote_from_bytes_def eq)
  qed
qed

lemma quote_plus_q: "quote_plus (str ''q'') = Inr (str ''q'')"
  by (simp add: quote_plus_def quote_def quote_from_bytes_def str_def utf8_char_def quoter_def always_safe_def)
lemma quote_plus_sort: "quote_plus (str ''sort'') = Inr (str ''sort'')"
  by (simp add: quote_plus_def quote_def quote_from_bytes_def str_def utf8_char_def quoter_def always_safe_def)
lemma quote_plus_page: "quote_plus (str ''page'') = Inr (str ''page'')"
  by (simp add: quote_plus_def quote_def quote_from_bytes_def str_def utf8_char_def quoter_def always_safe_def)
lemma quote_plus_aff: "quote_plus (str ''affinityOverride'') = Inr (str ''affinityOverride'')"
  by (simp add: quote_plus_def quote_def quote_from_bytes_def str_def utf8_char_def quoter_def always_safe_def)
lemma quote_plus_default: "quote_plus (str ''default'') = Inr (str ''default'')"
  by (simp add: quote_plus_def quote_def quote_from_bytes_def str_def utf8_char_def quoter_def always_safe_def)
lemma quote_plus_price_low: "quote_plus (str ''price_low'') = Inr (str ''price_low'')"
  by (simp add: quote_plus_def quote_def quote_from_bytes_def str_def utf8_char_def quoter_def always_safe_def)

lemma utf8_encode_ascii: "\<forall>c\<in>set s. c < 0x80 \<Longrightarrow> utf8_encode s = Inr s"
  by (induction s) (simp_all add: utf8_char_def)

lemma always_safe_ascii: "c \<in> set always_safe \<Longrightarrow> c < 0x80 \<and> c \<noteq> 32"
  by (auto simp: always_safe_def str_def)

lemma quote_plus_safe:
  assumes "\<forall>c\<in>set s. c \<in> set always_safe"
  shows "quote_plus s = Inr s"
proof -
  have a: "\<forall>c\<in>set s. c < 0x80" and n: "32 \<notin> set s"
    using assms always_safe_ascii by blast+
  have "map (quoter []) s = map (\<lambda>c. [c]) s"
    using assms by (intro map_cong) (auto simp: quoter_def)
  then have "concat (map (quoter []) s) = concat (map (\<lambda>c. [c]) s)"
    by (rule arg_cong)
  then have "concat (map (quoter []) s) = s"
    by (simp add: concat_map_singleton)
  then show ?thesis
    using n by (simp add: quote_plus_def quote_def quote_from_bytes_def utf8_encode_ascii [OF a])
qed

lemma digits_safe: "c \<in> set (digits n) \<Longrightarrow> c \<in> set always_safe"
proof (induction n arbitrary: c rule: digits.induct)
  case (1 n)
  have d: "48 + k \<in> set always_safe" if "k < 10" for k :: nat
  proof -
    from that have "k \<in> set [0..<10]" by simp
    then show ?thesis
      unfolding always_safe_def str_def by (simp add: upt_rec numeral_eq_Suc, auto)
  qed
  show ?case
  proof (cases "n < 10")
    case True
    then show ?thesis using "1.prems" d [of n] by (simp add: digits.simps [of n])
  next
    case False
    then have "c \<in> set (digits (n div 10)) \<or> c = 48 + n mod 10"
      using "1.prems" by (auto simp add: digits.simps [of n])
    then show ?thesis
      using "1.IH" [OF False] d [of "n mod 10"] by auto
  qed
qed

lemma quote_plus_str_of_int: "quote_plus (str_of_int i) = Inr (str_of_int i)"
proof (rule quote_plus_safe)
  have "45 \<in> set always_safe" by (simp add: always_safe_def str_def)
  then show "\<forall>c\<in>set (str_of_int i). c \<in> set always_safe"
    using digits_safe by (auto simp: str_of_int_def)
qed

lemma create_search_url_form:
  assumes "quote_plus q = Inr enc"
  shows "create_search_url q (Some i) None =
           Inr (str ''https://www.walmart.com/search?q='' @ enc @ str ''&sort=price_low&page='' @
                str_of_int i @ str ''&affinityOverride=default'')"
  using assms
  by (simp add: create_search_url_def urlencode_def quote_plus_q quote_plus_sort
        quote_plus_page quote_plus_aff quote_plus_default quote_plus_price_low
        quote_plus_str_of_int)
     (simp add: str_def)

lemma create_search_url_default_args:
  "create_search_url q None None = create_search_url q (Some 1) (Some (str ''price_low''))"
  "create_search_url q (Some i) None = create_search_url q (Some i) (Some (str ''price_low''))"
  by (simp_all add: create_search_url_def)

lemma utf8_char_error: "utf8_char c = Inl e \<Longrightarrow> e = UnicodeEncodeError"
  by (auto simp: utf8_char_def split: if_splits)

lemma utf8_char_surrogate: "0xD800 \<le> c \<Longrightarrow> c \<le> 0xDFFF \<Longrightarrow> utf8_char c = Inl UnicodeEncodeError"
  by (simp add: utf8_char_def)

lemma utf8_encode_surrogate:
  "\<exists>c\<in>set q. 0xD800 \<le> c \<and> c \<le> 0xDFFF \<Longrightarrow> utf8_encode q = Inl UnicodeEncodeError"
proof (induction q)
  case Nil
  then show ?case by simp
next
  case (Cons c q)
  show ?case
  proof (cases "utf8_char c")
    case (Inl e)
    then show ?thesis using utf8_char_error by simp
  next
    case (Inr bs)
    then have "\<not> (0xD800 \<le> c \<and> c \<le> 0xDFFF)"
      using utf8_char_surrogate [of c] by auto
    then have "\<exists>c\<in>set q. 0xD800 \<le> c \<and> c \<le> 0xDFFF" using Cons.prems by auto
    then show ?thesis using Cons.IH Inr by simp
  qed
qed

lemma quote_plus_surrogate:
  assumes "\<exists>c\<in>set q. 0xD800 \<le> c \<and> c \<le> 0xDFFF"
  shows "quote_plus q = Inl UnicodeEncodeError"
proof -
  have "q \<noteq> []" using assms by auto
  then show ?thesis
    using utf8_encode_surrogate [OF assms] by (simp add: quote_plus_def quote_def)
qed

lemma create_search_url_surrogate:
  assumes "\<exists>c\<in>set q. 0xD800 \<le> c \<and> c \<le> 0xDFFF"
  shows "create_search_url q page sort' = Inl UnicodeEncodeError"
  by (simp add: create_search_url_def urlencode_def quote_plus_q quote_plus_surrogate [OF assms])

text \<open>
  C8, as amended. For every query string that holds no surrogate code point,
  \<open>create_search_url(q, 1, "price_low")\<close> returns the absolute URL of the search endpoint
  whose query string is \<open>q=\<close> and the form encoding of the UTF-8 bytes of \<open>q\<close> (space as
  \<open>+\<close>, unreserved characters as they are, every other byte as \<open>%XX\<close>), then
  \<open>sort=price_low\<close>, \<open>page=1\<close> and \<open>affinityOverride=default\<close>. Every query string that
  holds a surrogate makes the builder raise \<open>UnicodeEncodeError\<close>, whatever the page and the
  sort mode. Leaving out page and sort is the same as passing 1 and \<open>price_low\<close>. Nothing
  is read or changed but the arguments.
\<close>

theorem create_search_url_encoded:
  "((\<forall>c\<in>set q. c < 0x110000 \<and> \<not> (0xD800 \<le> c \<and> c \<le> 0xDFFF)) \<longrightarrow>
      (\<exists>bs. utf8_encode q = Inr bs \<and>
         create_search_url q (Some 1) (Some (str ''price_low'')) =
           Inr (str ''https://www.walmart.com/search?q='' @
                concat (map form_encode_byte bs) @
                str ''&sort=price_low&page=1&affinityOverride=default''))) \<and>
   ((\<exists>c\<in>set q. 0xD800 \<le> c \<and> c \<le> 0xDFFF) \<longrightarrow>
      create_search_url q page sort' = Inl UnicodeEncodeError) \<and>
   create_search_url q None None = create_search_url q (Some 1) (Some (str ''price_low''))"
proof -
  have 1: "(\<forall>c\<in>set q. c < 0x110000 \<and> \<not> (0xD800 \<le> c \<and> c \<le> 0xDFFF)) \<longrightarrow>
      (\<exists>bs. utf8_encode q = Inr bs \<and>
         create_search_url q (Some 1) (Some (str ''price_low'')) =
           Inr (str ''https://www.walmart.com/search?q='' @
                concat (map form_encode_byte bs) @
                str ''&sort=price_low&page=1&affinityOverride=default''))"
  proof
    assume a: "\<forall>c\<in>set q. c < 0x110000 \<and> \<not> (0xD800 \<le> c \<and> c \<le> 0xDFFF)"
    obtain bs where bs: "utf8_encode q = Inr bs"
      using a utf8_encode_ok [of q] by blast
    have "\<forall>b\<in>set bs. b < 256"
      using utf8_encode_byte [OF bs] a by blast
    then have "quote_plus q = Inr (concat (map form_encode_byte bs))"
      using bs by (rule quote_plus_form [rotated])
    from create_search_url_form [OF this, of 1]
    have "create_search_url q (Some 1) (Some (str ''price_low'')) =
            Inr (str ''https://www.walmart.com/search?q='' @
                 concat (map form_encode_byte bs) @
                 str ''&sort=price_low&page=1&affinityOverride=default'')"
      by (simp add: create_search_url_default_args(2) str_of_int_def digits.simps)
         (simp add: str_def)
    then show "\<exists>bs. utf8_encode q = Inr bs \<and>
         create_search_url q (Some 1) (Some (str ''price_low'')) =
           Inr (str ''https://www.walmart.com/search?q='' @
                concat (map form_encode_byte bs) @
                str ''&sort=price_low&page=1&affinityOverride=default'')"
      using bs by blast
  qed
  have 2: "(\<exists>c\<in>set q. 0xD800 \<le> c \<and> c \<le> 0xDFFF) \<longrightarrow>
      create_search_url q page sort' = Inl UnicodeEncodeError"
    using create_search_url_surrogate by blast
  show ?thesis using 1 2 create_search_url_default_args(1) by blast
qed

theorem create_search_url_encoded_witness:
  "create_search_url (str ''spider man+&'') (Some 1) (Some (str ''price_low'')) =
     Inr (str ''https://www.walmart.com/search?q=spider+man%2B%26&sort=price_low&page=1&affinityOverride=default'') \<and>
   create_search_url (str ''spider man+&'') None None =
     Inr (str ''https://www.walmart.com/search?q=spider+man%2B%26&sort=price_low&page=1&affinityOverride=default'') \<and>
   create_search_url (str ''a'' @ [0xDC80]) (Some 2) None = Inl UnicodeEncodeError"
proof -
  have h: "\<forall>c\<in>set (str ''spider man+&''). c < 0x110000 \<and> \<not> (0xD800 \<le> c \<and> c \<le> 0xDFFF)"
    by (simp add: str_def)
  have u: "utf8_encode (str ''spider man+&'') = Inr (str ''spider man+&'')"
    by (rule utf8_encode_ascii) (simp add: str_def)
  have f: "concat (map form_encode_byte (str ''spider man+&'')) = str ''spider+man%2B%26''"
    by (simp add: form_encode_byte_def always_safe_def hex_digit_def str_def)
  have s: "\<exists>c\<in>set (str ''a'' @ [0xDC80]). 0xD800 \<le> c \<and> c \<le> 0xDFFF"
    by simp
  have a: "create_search_url (str ''spider man+&'') (Some 1) (Some (str ''price_low'')) =
     Inr (str ''https://www.walmart.com/search?q=spider+man%2B%26&sort=price_low&page=1&affinityOverride=default'')"
    and b: "create_search_url (str ''spider man+&'') None None =
      create_search_url (str ''spider man+&'') (Some 1) (Some (str ''price_low''))"
    using create_search_url_encoded [of "str ''spider man+&''"] h u f by (auto simp: str_def)
  have c: "create_search_url (str ''a'' @ [0xDC80]) (Some 2) None = Inl UnicodeEncodeError"
    using create_search_url_encoded [of "str ''a'' @ [0xDC80]" "Some 2" None] s by blast
  show ?thesis using a b c by simp
qed

text \<open>
  The claim as first stated fails: a \<open>str\<close> may hold a lone surrogate, which has no UTF-8
  encoding, and the URL builder then raises instead of returning.
\<close>

theorem create_search_url_surrogate_counterexample:
  "create_search_url [0xD800] (Some 1) (Some (str ''price_low'')) = Inl UnicodeEncodeError"
proof -
  have "quote_plus [0xD800] = Inl UnicodeEncodeError"
    by (simp add: quote_plus_def quote_def utf8_char_def)
  then show ?thesis
    by (simp add: create_search_url_def urlencode_def quote_plus_q)
qed

section \<open>Properties of the page-count arithmetic\<close>

lemma round_half_even_error: "\<bar>of_int (round_half_even x) - x\<bar> \<le> 1 / 2"
proof -
  have "of_int \<lfloor>x\<rfloor> \<le> x" "x < of_int \<lfloor>x\<rfloor> + 1" by linarith+
  then show ?thesis
    unfolding round_half_even_def Let_def by (auto simp: abs_le_iff)
qed

lemma round_half_even_int: "round_half_even (of_int k) = k"
  by (simp add: round_half_even_def)

lemma bitlen_rat:
  assumes "0 < (a::int)"
  shows "power_int (2::rat) (bitlen a - 1) \<le> of_int a" "of_int a < power_int (2::rat) (bitlen a)"
proof -
  from bitlen_bounds [OF assms]
  have l: "2 ^ nat (bitlen a - 1) \<le> a" and u: "a < 2 ^ nat (bitlen a)" by auto
  have p: "1 \<le> bitlen a" using assms by (simp add: bitlen_alt_def)
  have "(of_int (2 ^ nat (bitlen a - 1)) :: rat) \<le> of_int a" using l by (simp only: of_int_le_iff)
  then show "power_int (2::rat) (bitlen a - 1) \<le> of_int a"
    using p by (simp add: power_int_def)
  have "(of_int a :: rat) < of_int (2 ^ nat (bitlen a))" using u by (simp only: of_int_less_iff)
  then show "of_int a < power_int (2::rat) (bitlen a)"
    using p by (simp add: power_int_def)
qed

lemma floor_log2_bounds:
  assumes "0 < q"
  shows "power_int 2 (floor_log2 q) \<le> q" "q < power_int 2 (floor_log2 q + 1)"
proof -
  obtain a b where ab: "quotient_of q = (a, b)" by (cases "quotient_of q")
  have b: "0 < b" using ab quotient_of_denom_pos by blast
  have q: "q = of_int a / of_int b" using ab quotient_of_div by blast
  have a: "0 < a" using assms b q by (simp add: zero_less_divide_iff)
  define d where "d = bitlen a - bitlen b"
  have up: "q < power_int 2 (d + 1)"
  proof -
    have "of_int a < power_int (2::rat) (bitlen a)" by (rule bitlen_rat [OF a])
    moreover have "power_int (2::rat) (bitlen b - 1) \<le> of_int b" by (rule bitlen_rat [OF b])
    moreover have "0 < power_int (2::rat) (bitlen b - 1)" by simp
    ultimately have "q < power_int 2 (bitlen a) / power_int 2 (bitlen b - 1)"
      unfolding q using a by (intro frac_less) auto
    also have "\<dots> = power_int 2 (d + 1)"
      unfolding d_def by (simp add: power_int_diff power_int_add)
    finally show ?thesis .
  qed
  have lo: "power_int 2 (d - 1) \<le> q"
  proof -
    have "power_int (2::rat) (bitlen a - 1) \<le> of_int a" by (rule bitlen_rat [OF a])
    moreover have "of_int b < power_int (2::rat) (bitlen b)" by (rule bitlen_rat [OF b])
    moreover have "(0::rat) < of_int b" using b by simp
    moreover have "0 < power_int (2::rat) (bitlen a - 1)" by simp
    ultimately have "power_int 2 (bitlen a - 1) / power_int 2 (bitlen b) \<le> q"
      unfolding q using a by (intro frac_le) auto
    moreover have "power_int (2::rat) (bitlen a - 1) / power_int 2 (bitlen b) = power_int 2 (d - 1)"
      unfolding d_def by (simp add: power_int_diff power_int_add)
    ultimately show ?thesis by simp
  qed
  have e: "floor_log2 q = (if q < power_int 2 d then d - 1 else d)"
    by (simp add: floor_log2_def ab d_def Let_def)
  show "power_int 2 (floor_log2 q) \<le> q"
    using lo unfolding e by auto
  show "q < power_int 2 (floor_log2 q + 1)"
    using up unfolding e by auto
qed


lemma floor_log2_ge:
  assumes "0 < q" "power_int 2 k \<le> q"
  shows "k \<le> floor_log2 q"
proof (rule ccontr)
  assume "\<not> k \<le> floor_log2 q"
  then have "floor_log2 q + 1 \<le> k" by simp
  then have "power_int (2::rat) (floor_log2 q + 1) \<le> power_int 2 k"
    by (intro power_int_increasing) auto
  then show False using floor_log2_bounds(2) [OF assms(1)] assms(2) by linarith
qed

lemma floor_log2_less:
  assumes "0 < q" "q < power_int 2 k"
  shows "floor_log2 q < k"
proof (rule ccontr)
  assume "\<not> floor_log2 q < k"
  then have "k \<le> floor_log2 q" by simp
  then have "power_int (2::rat) k \<le> power_int 2 (floor_log2 q)"
    by (intro power_int_increasing) auto
  then show False using floor_log2_bounds(1) [OF assms(1)] assms(2) by linarith
qed

lemma rounded_nonneg: "0 < a \<Longrightarrow> 0 \<le> rounded a"
proof -
  assume a: "0 < a"
  have "0 \<le> a / power_int 2 (floor_log2 a - 52)" using a by simp
  then have "- (1 / 2) \<le> (of_int (round_half_even (a / power_int 2 (floor_log2 a - 52))) :: rat)"
    using round_half_even_error [of "a / power_int 2 (floor_log2 a - 52)"] by linarith
  then have "0 \<le> round_half_even (a / power_int 2 (floor_log2 a - 52))"
    by linarith
  then show ?thesis by (simp add: rounded_def)
qed

lemma rounded_error:
  assumes "0 < a"
  shows "\<bar>rounded a - a\<bar> \<le> a / 2 ^ 53"
proof -
  define e where "e = floor_log2 a"
  define u :: rat where "u = power_int 2 (e - 52)"
  have u: "0 < u" by (simp add: u_def)
  have "\<bar>of_int (round_half_even (a / u)) - a / u\<bar> \<le> 1 / 2"
    by (rule round_half_even_error)
  then have A: "\<bar>of_int (round_half_even (a / u)) - a / u\<bar> * u \<le> 1 / 2 * u"
    using u by (intro mult_right_mono) auto
  have "\<bar>of_int (round_half_even (a / u)) - a / u\<bar> * u =
        \<bar>(of_int (round_half_even (a / u)) - a / u) * u\<bar>"
    using u by (simp add: abs_mult)
  also have "(of_int (round_half_even (a / u)) - a / u) * u =
             of_int (round_half_even (a / u)) * u - a"
    using u by (simp add: left_diff_distrib)
  finally have B: "\<bar>of_int (round_half_even (a / u)) - a / u\<bar> * u =
                   \<bar>of_int (round_half_even (a / u)) * u - a\<bar>" .
  have "\<bar>of_int (round_half_even (a / u)) * u - a\<bar> \<le> u / 2"
    using A B by linarith
  then have "\<bar>rounded a - a\<bar> \<le> u / 2"
    unfolding rounded_def u_def e_def .
  moreover have "u / 2 = power_int 2 e / 2 ^ 53"
    by (simp add: u_def power_int_diff)
  moreover have "power_int 2 e \<le> a"
    unfolding e_def by (rule floor_log2_bounds(1) [OF assms])
  ultimately show ?thesis
    by (simp add: divide_right_mono)
qed

lemma rounded_no_overflow:
  assumes "0 < a" "a < 2 ^ 1024 - 2 ^ 970"
  shows "rounded a < 2 ^ 1024"
proof -
  define e where "e = floor_log2 a"
  define u :: rat where "u = power_int 2 (e - 52)"
  define m where "m = round_half_even (a / u)"
  have u: "0 < u" by (simp add: u_def)
  have r: "rounded a = of_int m * u" by (simp add: rounded_def m_def u_def e_def)
  have err: "of_int m \<le> a / u + 1 / 2"
    using round_half_even_error [of "a / u"] unfolding m_def by linarith
  have "a < power_int 2 1024" using assms(2) by simp
  then have e: "e \<le> 1023" using floor_log2_less [OF assms(1), of 1024] by (simp add: e_def)
  show ?thesis
  proof (cases "e = 1023")
    case True
    then have uv: "u = 2 ^ 971" by (simp add: u_def)
    have "a / u < 2 ^ 53 - 1 / 2"
      using assms(2) unfolding uv by (simp add: field_simps)
    then have "(of_int m :: rat) < 2 ^ 53" using err by linarith
    then have "m < 2 ^ 53" by simp
    then have "m \<le> 2 ^ 53 - 1" by simp
    then have "(of_int m :: rat) \<le> of_int (2 ^ 53 - 1)" by (simp only: of_int_le_iff)
    then have "of_int m * u \<le> of_int (2 ^ 53 - 1) * u"
      using u by (intro mult_right_mono) auto
    also have "\<dots> < 2 ^ 1024" unfolding uv by simp
    finally show ?thesis unfolding r .
  next
    case False
    then have e': "e + 1 \<le> 1023" using e by simp
    have "a < power_int 2 (e + 1)" unfolding e_def by (rule floor_log2_bounds(2) [OF assms(1)])
    then have "a / u < power_int 2 (e + 1) / u" using u by (simp add: divide_strict_right_mono)
    also have "\<dots> = 2 ^ 53" by (simp add: u_def power_int_diff power_int_add)
    finally have "(of_int m :: rat) < 2 ^ 53 + 1" using err by linarith
    then have "(of_int m :: rat) < of_int (2 ^ 53 + 1)" by simp
    then have "m < 2 ^ 53 + 1" by (simp only: of_int_less_iff)
    then have "m \<le> 2 ^ 53" by simp
    then have "(of_int m :: rat) \<le> of_int (2 ^ 53)" by (simp only: of_int_le_iff)
    then have "of_int m * u \<le> of_int (2 ^ 53) * u"
      using u by (intro mult_right_mono) auto
    also have "\<dots> = power_int 2 (e + 1)" by (simp add: u_def power_int_diff power_int_add)
    also have "\<dots> \<le> power_int 2 1023" using e' by (intro power_int_increasing) auto
    also have "\<dots> < 2 ^ 1024" by simp
    finally show ?thesis unfolding r .
  qed
qed

lemma rounded_int:
  assumes "1 \<le> k" "k < 2 ^ 53"
  shows "rounded (of_int k) = of_int k"
proof -
  define e where "e = floor_log2 (of_int k)"
  have pos: "(0::rat) < of_int k" using assms(1) by simp
  have "power_int (2::rat) 0 \<le> of_int k" using assms(1) by simp
  then have e0: "0 \<le> e" unfolding e_def by (rule floor_log2_ge [OF pos])
  have "(of_int k :: rat) < of_int (2 ^ 53)" using assms(2) by (simp only: of_int_less_iff)
  then have "(of_int k :: rat) < power_int 2 53" by simp
  then have e1: "e < 53" unfolding e_def by (rule floor_log2_less [OF pos])
  have u: "power_int (2::rat) (e - 52) = 1 / 2 ^ nat (52 - e)"
    using e1 by (simp add: power_int_def field_simps)
  have "of_int k / power_int (2::rat) (e - 52) = of_int (k * 2 ^ nat (52 - e))"
    unfolding u by simp
  then have "round_half_even (of_int k / power_int 2 (e - 52)) = k * 2 ^ nat (52 - e)"
    by (simp only: round_half_even_int)
  then show ?thesis
    unfolding rounded_def e_def [symmetric] by (simp add: u)
qed

lemma round_to_double_pos:
  assumes "1 / 64 \<le> a" "a < 2 ^ 1024 - 2 ^ 970"
  shows "round_to_double a = Finite (rounded a)" "round_to_double (- a) = Finite (- rounded a)"
proof -
  have pos: "0 < a" using assms(1) by simp
  have "power_int (2::rat) (- 6) = 1 / 64" by (simp add: power_int_minus_divide)
  then have "power_int 2 (- 6) \<le> a" using assms(1) by simp
  then have "- 6 \<le> floor_log2 a" by (rule floor_log2_ge [OF pos])
  then have m: "max (floor_log2 a) (- 1022) = floor_log2 a" by simp
  have no: "\<not> 2 ^ 1024 \<le> rounded a"
    using rounded_no_overflow [OF pos assms(2)] by simp
  show "round_to_double a = Finite (rounded a)"
    using pos no by (simp add: round_to_double_def Let_def m rounded_def)
  show "round_to_double (- a) = Finite (- rounded a)"
    using pos no by (simp add: round_to_double_def Let_def m rounded_def)
qed


lemma round_half_even_ge:
  assumes "of_int N - 1 / 2 \<le> x" "even N"
  shows "N \<le> round_half_even x"
proof -
  have f: "N - 1 \<le> \<lfloor>x\<rfloor>" using assms(1) by (simp add: le_floor_iff) 
  show ?thesis
  proof (cases "N \<le> \<lfloor>x\<rfloor>")
    case True
    then show ?thesis by (auto simp: round_half_even_def Let_def)
  next
    case False
    then have n: "\<lfloor>x\<rfloor> = N - 1" using f by simp
    then have "1 / 2 \<le> x - of_int \<lfloor>x\<rfloor>" using assms(1) by simp
    moreover have "odd \<lfloor>x\<rfloor>" using n assms(2) by simp
    ultimately show ?thesis using n by (auto simp: round_half_even_def Let_def)
  qed
qed

lemma rounded_overflow:
  assumes "2 ^ 1024 - 2 ^ 970 \<le> a"
  shows "2 ^ 1024 \<le> rounded a"
proof -
  define e where "e = floor_log2 a"
  define u :: rat where "u = power_int 2 (e - 52)"
  define m where "m = round_half_even (a / u)"
  have pos: "0 < a" using assms by simp
  have u: "0 < u" by (simp add: u_def)
  have r: "rounded a = of_int m * u" by (simp add: rounded_def m_def u_def e_def)
  have "power_int 2 1023 \<le> a" using assms by simp
  then have e: "1023 \<le> e" unfolding e_def by (rule floor_log2_ge [OF pos])
  show ?thesis
  proof (cases "e = 1023")
    case True
    then have uv: "u = 2 ^ 971" by (simp add: u_def)
    have "of_int (2 ^ 53) - 1 / 2 \<le> a / u"
      using assms unfolding uv by (simp add: field_simps)
    then have "2 ^ 53 \<le> m" unfolding m_def by (rule round_half_even_ge) simp
    then have "(of_int (2 ^ 53) :: rat) \<le> of_int m" by (simp only: of_int_le_iff)
    then have "of_int (2 ^ 53) * u \<le> of_int m * u"
      using u by (intro mult_right_mono) auto
    then show ?thesis unfolding r uv by simp
  next
    case False
    then have e': "1024 \<le> e" using e by simp
    have "power_int 2 e \<le> a" unfolding e_def by (rule floor_log2_bounds(1) [OF pos])
    then have "power_int 2 e / u \<le> a / u" using u by (simp add: divide_right_mono)
    moreover have "power_int 2 e / u = of_int (2 ^ 52)"
      by (simp add: u_def power_int_diff)
    ultimately have "of_int (2 ^ 52) - 1 / 2 \<le> a / u" by linarith
    then have "2 ^ 52 \<le> m" unfolding m_def by (rule round_half_even_ge) simp
    then have "(of_int (2 ^ 52) :: rat) \<le> of_int m" by (simp only: of_int_le_iff)
    then have "of_int (2 ^ 52) * u \<le> of_int m * u"
      using u by (intro mult_right_mono) auto
    moreover have "of_int (2 ^ 52) * u = power_int 2 e"
      by (simp add: u_def power_int_diff)
    moreover have "power_int (2::rat) 1024 \<le> power_int 2 e"
      using e' by (intro power_int_increasing) auto
    ultimately show ?thesis unfolding r by simp
  qed
qed

lemma round_to_double_overflow:
  assumes "2 ^ 1024 - 2 ^ 970 \<le> a"
  shows "round_to_double a = PosInf" "round_to_double (- a) = NegInf"
proof -
  have pos: "0 < a" using assms by simp
  have "power_int 2 (- 1022) \<le> a"
  proof -
    have "power_int (2::rat) (- 1022) \<le> power_int 2 0"
      by (intro power_int_increasing) auto
    then show ?thesis using assms by simp
  qed
  then have "- 1022 \<le> floor_log2 a" by (rule floor_log2_ge [OF pos])
  then have m: "max (floor_log2 a) (- 1022) = floor_log2 a" by simp
  have ov: "2 ^ 1024 \<le> rounded a" by (rule rounded_overflow [OF assms])
  show "round_to_double a = PosInf"
    using pos ov by (simp add: round_to_double_def Let_def m rounded_def)
  show "round_to_double (- a) = NegInf"
    using pos ov by (simp add: round_to_double_def Let_def m rounded_def)
qed

lemma bound_rat:
  "(of_int n :: rat) / 40 < 2 ^ 1024 - 2 ^ 970 \<longleftrightarrow> n < truediv40_bound"
proof -
  have "(of_int n :: rat) / 40 < 2 ^ 1024 - 2 ^ 970 \<longleftrightarrow>
        (of_int n :: rat) < of_int truediv40_bound"
    by (simp add: truediv40_bound_def field_simps)
  then show ?thesis by (simp only: of_int_less_iff)
qed

lemma int_truediv_pos:
  assumes "0 < n" "n < truediv40_bound"
  shows "int_truediv n 40 = Inr (Finite (rounded (of_int n / 40)))"
    and "int_truediv (- n) 40 = Inr (Finite (- rounded (of_int n / 40)))"
proof -
  have "(1::rat) \<le> of_int n" using assms(1) by simp
  then have a: "1 / 64 \<le> (of_int n :: rat) / 40" by simp
  have b: "(of_int n :: rat) / 40 < 2 ^ 1024 - 2 ^ 970"
    using assms(2) by (simp only: bound_rat)
  show "int_truediv n 40 = Inr (Finite (rounded (of_int n / 40)))"
    using round_to_double_pos(1) [OF a b] by (simp add: int_truediv_def)
  show "int_truediv (- n) 40 = Inr (Finite (- rounded (of_int n / 40)))"
    using round_to_double_pos(2) [OF a b] by (simp add: int_truediv_def)
qed

lemma int_truediv_overflow:
  assumes "truediv40_bound \<le> n"
  shows "int_truediv n 40 = Inl OverflowError" "int_truediv (- n) 40 = Inl OverflowError"
proof -
  have "\<not> n < truediv40_bound" using assms by simp
  then have "\<not> (of_int n :: rat) / 40 < 2 ^ 1024 - 2 ^ 970"
    using bound_rat [of n] by blast
  then have b: "2 ^ 1024 - 2 ^ 970 \<le> (of_int n :: rat) / 40" by simp
  show "int_truediv n 40 = Inl OverflowError"
    using round_to_double_overflow(1) [OF b] by (simp add: int_truediv_def)
  show "int_truediv (- n) 40 = Inl OverflowError"
    using round_to_double_overflow(2) [OF b] by (simp add: int_truediv_def)
qed

lemma ceiling_rounded_clamp:
  assumes "0 < n"
  shows "min 25 \<lceil>rounded (of_int n / 40)\<rceil> = min 25 \<lceil>(of_int n :: rat) / 40\<rceil>"
proof -
  define a :: rat where "a = of_int n / 40"
  have pos: "0 < a" using assms by (simp add: a_def)
  have err: "\<bar>rounded a - a\<bar> \<le> a / 2 ^ 53" by (rule rounded_error [OF pos])
  consider (big) "1000 < n" | (mult) "n \<le> 1000" "40 dvd n" | (frac) "n \<le> 1000" "\<not> 40 dvd n"
    by linarith
  then have "min 25 \<lceil>rounded a\<rceil> = min 25 \<lceil>a\<rceil>"
  proof cases
    case big
    then have "1001 \<le> n" by simp
    then have "(of_int 1001 :: rat) \<le> of_int n" by (simp only: of_int_le_iff)
    then have a: "1001 / 40 \<le> a" by (simp add: a_def)
    have "a - a / 2 ^ 53 \<le> rounded a" using err by linarith
    then have "25 < rounded a" using a by simp
    then have "25 < \<lceil>rounded a\<rceil>" by (simp add: less_ceiling_iff)
    moreover have "25 < \<lceil>a\<rceil>" using a by (simp add: less_ceiling_iff)
    ultimately show ?thesis by simp
  next
    case mult
    then obtain k where k: "n = 40 * k" by (auto simp: dvd_def)
    then have "1 \<le> k" "k \<le> 25" using assms mult(1) by auto
    then have "rounded (of_int k) = of_int k" by (intro rounded_int) auto
    moreover have "a = of_int k" by (simp add: a_def k)
    ultimately show ?thesis by simp
  next
    case frac
    define k where "k = n div 40"
    define j where "j = n mod 40"
    have n: "n = 40 * k + j" by (simp add: k_def j_def)
    have "0 \<le> j" "j < 40" "j \<noteq> 0"
      using frac(2) by (simp_all add: j_def dvd_eq_mod_eq_0)
    then have j: "1 \<le> j" "j \<le> 39" by simp_all
    have "n \<noteq> 1000" using frac(2) by auto
    then have "n \<le> 999" using frac(1) by simp
    then have "n div 40 \<le> 999 div 40" by (rule zdiv_mono1) simp
    moreover have "0 \<le> n div 40" using assms by (simp add: pos_imp_zdiv_nonneg_iff)
    ultimately have k: "0 \<le> k" "k \<le> 24" by (simp_all add: k_def)
    have av: "a = of_int k + of_int j / 40" by (simp add: a_def n)
    have "(of_int 1 :: rat) \<le> of_int j" "(of_int j :: rat) \<le> of_int 39"
      "(of_int k :: rat) \<le> of_int 24" "(of_int 0 :: rat) \<le> of_int k"
      using j k by (simp_all only: of_int_le_iff)
    then have b: "of_int k + 1 / 40 \<le> a" "a \<le> of_int k + 39 / 40" "a \<le> 25"
      by (simp_all add: av)
    have "a / 2 ^ 53 < 1 / 40" using b(3) pos by simp
    then have "of_int k < rounded a" "rounded a \<le> of_int k + 1"
      using err b by linarith+
    then have "\<lceil>rounded a\<rceil> = k + 1" by (simp add: ceiling_unique)
    moreover have "\<lceil>a\<rceil> = k + 1" using b by (intro ceiling_unique) auto
    ultimately show ?thesis by simp
  qed
  then show ?thesis by (simp add: a_def)
qed

section \<open>Properties of discovery\<close>

lemma page_urls_length: "page_urls search pages = Inr urls \<Longrightarrow> length urls = length pages"
  by (induction pages arbitrary: urls) (auto simp: bind_def split: sum.splits)

lemma create_search_url_quote:
  "create_search_url search page sort' = Inr u \<Longrightarrow> \<exists>enc. quote_plus search = Inr enc"
  by (cases "quote_plus search")
     (simp_all add: create_search_url_def urlencode_def quote_plus_q)

lemma page_urls_ok:
  assumes "create_search_url search None None = Inr u1"
  shows "\<exists>urls. page_urls search pages = Inr urls"
proof -
  obtain enc where enc: "quote_plus search = Inr enc"
    using create_search_url_quote [OF assms] by blast
  show ?thesis
    by (induction pages) (auto simp: create_search_url_form [OF enc])
qed

lemma length_upto_2: "int (length [2 .. m]) = max 0 (m - 1)"
  by simp

lemma clamp_min: "(if (mp::int) > 25 then 25 else mp) = min 25 mp"
  by simp

lemma math_ceil_pages:
  assumes "\<bar>n\<bar> < truediv40_bound"
  shows "\<exists>x mp. truediv40 (JInt n) = Inr x \<and> math_ceil x = Inr mp \<and>
              [2 .. min 25 mp] = [2 .. min 25 \<lceil>(of_int n :: rat) / 40\<rceil>] \<and>
              (0 \<le> n \<longrightarrow> min 25 mp = min 25 \<lceil>(of_int n :: rat) / 40\<rceil>)"
proof -
  consider (zero) "n = 0" | (pos) "0 < n" | (neg) "n < 0" by linarith
  then show ?thesis
  proof cases
    case zero
    then show ?thesis by (simp add: int_truediv_def round_to_double_def)
  next
    case pos
    then have b: "n < truediv40_bound" using assms by simp
    have c: "min 25 \<lceil>rounded (of_int n / 40)\<rceil> = min 25 \<lceil>(of_int n :: rat) / 40\<rceil>"
      by (rule ceiling_rounded_clamp [OF pos])
    have "truediv40 (JInt n) = Inr (Finite (rounded (of_int n / 40)))"
      using int_truediv_pos(1) [OF pos b] by simp
    moreover have "math_ceil (Finite (rounded (of_int n / 40))) = Inr \<lceil>rounded (of_int n / 40)\<rceil>"
      by simp
    ultimately show ?thesis using c by metis
  next
    case neg
    define m where "m = - n"
    have m: "0 < m" "m < truediv40_bound" using neg assms by (simp_all add: m_def)
    have "0 \<le> rounded (of_int m / 40)" using m(1) by (intro rounded_nonneg) simp
    then have c: "\<lceil>- rounded (of_int m / 40)\<rceil> \<le> 0" by (simp add: ceiling_le_iff)
    have "(of_int n :: rat) / 40 \<le> 0" using neg by simp
    then have d: "\<lceil>(of_int n :: rat) / 40\<rceil> \<le> 0" by (simp add: ceiling_le_iff)
    have e: "[2 .. min 25 \<lceil>- rounded (of_int m / 40)\<rceil>] = [2 .. min 25 \<lceil>(of_int n :: rat) / 40\<rceil>]"
      using c d by simp
    have "truediv40 (JInt n) = Inr (Finite (- rounded (of_int m / 40)))"
      using int_truediv_pos(2) [OF m] by (simp add: m_def)
    moreover have "math_ceil (Finite (- rounded (of_int m / 40))) = Inr \<lceil>- rounded (of_int m / 40)\<rceil>"
      by simp
    ultimately show ?thesis using e neg by (metis not_le)
  qed
qed

lemma discover_walmart_unfold:
  assumes "create_search_url search None None = Inr u1"
    and "parse_search env (fetch env (ScrapeConfig (JStr u1))) = Inr (previews, total_items)"
    and "truediv40 total_items = Inr x"
    and "math_ceil x = Inr mp"
    and "page_urls search [2 .. min 25 mp] = Inr urls"
  shows "discover_walmart env search =
           (extend_all env previews
              (concurrent_scrape env (map (\<lambda>u. ScrapeConfig (JStr u)) urls)),
            ScrapeConfig (JStr u1) # map (\<lambda>u. ScrapeConfig (JStr u)) urls)"
  using assms(5) unfolding clamp_min [symmetric]
  by (simp add: discover_walmart_def assms(1-4) Let_def)

lemma discover_requests_bound: "length (snd (discover_walmart env search)) \<le> 25"
proof (cases "create_search_url search None None")
  case (Inl e)
  then show ?thesis by (simp add: discover_walmart_def)
next
  case (Inr u)
  show ?thesis
  proof (cases "parse_search env (fetch env (ScrapeConfig (JStr u)))")
    case (Inl e)
    then show ?thesis using Inr by (simp add: discover_walmart_def Let_def)
  next
    case p: (Inr pn)
    obtain previews total_items where pn: "pn = (previews, total_items)" by (cases pn)
    show ?thesis
    proof (cases "truediv40 total_items")
      case (Inl e)
      then show ?thesis using Inr p pn by (simp add: discover_walmart_def Let_def)
    next
      case x: (Inr x)
      show ?thesis
      proof (cases "math_ceil x")
        case (Inl e)
        then show ?thesis using Inr p pn x by (simp add: discover_walmart_def Let_def)
      next
        case mp: (Inr mp)
        obtain urls where urls: "page_urls search [2 .. min 25 mp] = Inr urls"
          using page_urls_ok [OF Inr] by blast
        have "length urls = length [2 .. min 25 mp]"
          by (rule page_urls_length [OF urls])
        then have "length urls \<le> 24" by simp
        then show ?thesis
          using discover_walmart_unfold [OF Inr p [unfolded pn] x mp urls] by simp
      qed
    qed
  qed
qed

lemma discover_requests:
  assumes "create_search_url search None None = Inr u1"
    and "parse_search env (fetch env (ScrapeConfig (JStr u1))) = Inr (previews, JInt n)"
    and "\<bar>n\<bar> < truediv40_bound"
  shows "\<exists>urls. page_urls search [2 .. min 25 \<lceil>(of_int n :: rat) / 40\<rceil>] = Inr urls \<and>
           discover_walmart env search =
             (extend_all env previews (concurrent_scrape env (map (\<lambda>u. ScrapeConfig (JStr u)) urls)),
              ScrapeConfig (JStr u1) # map (\<lambda>u. ScrapeConfig (JStr u)) urls)"
proof -
  obtain x mp where x: "truediv40 (JInt n) = Inr x" and mp: "math_ceil x = Inr mp"
    and pages: "[2 .. min 25 mp] = [2 .. min 25 \<lceil>(of_int n :: rat) / 40\<rceil>]"
    using math_ceil_pages [OF assms(3)] by blast
  obtain urls where urls: "page_urls search [2 .. min 25 mp] = Inr urls"
    using page_urls_ok [OF assms(1)] by blast
  show ?thesis
    using discover_walmart_unfold [OF assms(1,2) x mp urls] urls pages by auto
qed

lemma widgets_url:
  "create_search_url (str ''widgets'') None None =
     Inr (str ''https://www.walmart.com/search?q=widgets&sort=price_low&page=1&affinityOverride=default'')"
proof -
  have "quote_plus (str ''widgets'') = Inr (str ''widgets'')"
    by (rule quote_plus_safe) (simp add: always_safe_def str_def)
  from create_search_url_form [OF this, of 1] show ?thesis
    by (simp add: create_search_url_default_args str_of_int_def digits.simps) (simp add: str_def)
qed

lemma shop_first_page:
  "parse_search shop_env (fetch shop_env (ScrapeConfig (JStr (str
     ''https://www.walmart.com/search?q=widgets&sort=price_low&page=1&affinityOverride=default'')))) =
   Inr (PList [sample_entries ! 0, sample_entries ! 2], JInt 1050)"
  by (simp add: shop_env_def ScrapeConfig_def parse_search_def sample_search_doc_def
        sample_stack_def sample_entries_def obj_def stack_path_def seq_index_def str_def)

lemma page_urls_form:
  assumes "quote_plus search = Inr enc"
  shows "page_urls search pages =
           Inr (map (\<lambda>i. str ''https://www.walmart.com/search?q='' @ enc @
                          str ''&sort=price_low&page='' @ str_of_int i @
                          str ''&affinityOverride=default'') pages)"
  by (induction pages) (simp_all add: create_search_url_form [OF assms])

lemma widgets_quote: "quote_plus (str ''widgets'') = Inr (str ''widgets'')"
  by (rule quote_plus_safe) (simp add: always_safe_def str_def)

text \<open>
  C1, as amended. Whatever the first page reports, \<open>discover_walmart\<close> hands at most 25
  search-page requests to the client. When the first page reports an integer total count
  \<open>n\<close> of magnitude below \<open>40 * (2 ^ 1024 - 2 ^ 970)\<close>, the requests are the first page and
  then exactly the search URLs of the pages 2 to \<open>min 25 (ceil (n / 40))\<close>, none when that
  is at most 1: 24 further requests for \<open>n = 1050\<close>, none for \<open>n \<le> 40\<close>. The first request
  is the search URL of the encoded query with page 1, and the further requests are, in
  order, the same URL with the page numbers 2, 3 and so on in its place. For
  \<open>n \<ge> 0\<close> the page count the code computes with floating-point division and then
  clamps is \<open>min 25 (ceil (n / 40))\<close>.
\<close>

theorem discover_page_requests:
  "length (snd (discover_walmart env search)) \<le> 25 \<and>
   (create_search_url search None None = Inr u1 \<and>
    parse_search env (fetch env (ScrapeConfig (JStr u1))) = Inr (previews, JInt n) \<and>
    \<bar>n\<bar> < truediv40_bound \<longrightarrow>
      (\<exists>urls. page_urls search [2 .. min 25 \<lceil>(of_int n :: rat) / 40\<rceil>] = Inr urls \<and>
         snd (discover_walmart env search) =
           ScrapeConfig (JStr u1) # map (\<lambda>u. ScrapeConfig (JStr u)) urls \<and>
         int (length urls) = max 0 (min 25 \<lceil>(of_int n :: rat) / 40\<rceil> - 1) \<and>
         (n = 1050 \<longrightarrow> length urls = 24) \<and>
         (n \<le> 40 \<longrightarrow> urls = []) \<and>
         (\<exists>enc. quote_plus search = Inr enc \<and>
            u1 = str ''https://www.walmart.com/search?q='' @ enc @
                 str ''&sort=price_low&page=1&affinityOverride=default'' \<and>
            urls = map (\<lambda>i. str ''https://www.walmart.com/search?q='' @ enc @
                              str ''&sort=price_low&page='' @ str_of_int i @
                              str ''&affinityOverride=default'')
                       [2 .. min 25 \<lceil>(of_int n :: rat) / 40\<rceil>])) \<and>
      (0 \<le> n \<longrightarrow>
         (\<exists>x max_page. truediv40 (JInt n) = Inr x \<and> math_ceil x = Inr max_page \<and>
            (if max_page > 25 then 25 else max_page) = min 25 \<lceil>(of_int n :: rat) / 40\<rceil>)))"
proof (intro conjI impI)
  show "length (snd (discover_walmart env search)) \<le> 25"
    by (rule discover_requests_bound)
next
  assume a: "create_search_url search None None = Inr u1 \<and>
    parse_search env (fetch env (ScrapeConfig (JStr u1))) = Inr (previews, JInt n) \<and>
    \<bar>n\<bar> < truediv40_bound"
  then obtain urls where
    urls: "page_urls search [2 .. min 25 \<lceil>(of_int n :: rat) / 40\<rceil>] = Inr urls"
    and d: "discover_walmart env search =
             (extend_all env previews (concurrent_scrape env (map (\<lambda>u. ScrapeConfig (JStr u)) urls)),
              ScrapeConfig (JStr u1) # map (\<lambda>u. ScrapeConfig (JStr u)) urls)"
    using discover_requests [of search u1 env previews n] by blast
  have len: "int (length urls) = max 0 (min 25 \<lceil>(of_int n :: rat) / 40\<rceil> - 1)"
    using page_urls_length [OF urls] by simp
  have c1: "\<lceil>(1050 :: rat) / 40\<rceil> = 27"
    by (intro ceiling_unique) auto
  have l1: "n = 1050 \<longrightarrow> length urls = 24"
    using len c1 by auto
  have l2: "n \<le> 40 \<longrightarrow> urls = []"
  proof
    assume "n \<le> 40"
    then have "(of_int n :: rat) \<le> of_int 40" by (simp only: of_int_le_iff)
    then have "(of_int n :: rat) / 40 \<le> 1" by simp
    then have "\<lceil>(of_int n :: rat) / 40\<rceil> \<le> 1" by (simp add: ceiling_le_iff)
    then show "urls = []" using len by simp
  qed
  obtain enc where enc: "quote_plus search = Inr enc"
    using a create_search_url_quote by blast
  have "create_search_url search None None =
          Inr (str ''https://www.walmart.com/search?q='' @ enc @
               str ''&sort=price_low&page='' @ str_of_int 1 @ str ''&affinityOverride=default'')"
    using create_search_url_form [OF enc, of 1] by (simp add: create_search_url_default_args)
  then have u1: "u1 = str ''https://www.walmart.com/search?q='' @ enc @
                 str ''&sort=price_low&page=1&affinityOverride=default''"
    using a by (simp add: str_of_int_def digits.simps) (simp add: str_def)
  have form: "urls = map (\<lambda>i. str ''https://www.walmart.com/search?q='' @ enc @
                              str ''&sort=price_low&page='' @ str_of_int i @
                              str ''&affinityOverride=default'')
                       [2 .. min 25 \<lceil>(of_int n :: rat) / 40\<rceil>]"
    using urls page_urls_form [OF enc, of "[2 .. min 25 \<lceil>(of_int n :: rat) / 40\<rceil>]"] by simp
  have e: "\<exists>enc. quote_plus search = Inr enc \<and>
            u1 = str ''https://www.walmart.com/search?q='' @ enc @
                 str ''&sort=price_low&page=1&affinityOverride=default'' \<and>
            urls = map (\<lambda>i. str ''https://www.walmart.com/search?q='' @ enc @
                              str ''&sort=price_low&page='' @ str_of_int i @
                              str ''&affinityOverride=default'')
                       [2 .. min 25 \<lceil>(of_int n :: rat) / 40\<rceil>]"
    using enc u1 form by blast
  have s: "snd (discover_walmart env search) =
           ScrapeConfig (JStr u1) # map (\<lambda>u. ScrapeConfig (JStr u)) urls"
    by (simp add: d)
  show "\<exists>urls. page_urls search [2 .. min 25 \<lceil>(of_int n :: rat) / 40\<rceil>] = Inr urls \<and>
         snd (discover_walmart env search) =
           ScrapeConfig (JStr u1) # map (\<lambda>u. ScrapeConfig (JStr u)) urls \<and>
         int (length urls) = max 0 (min 25 \<lceil>(of_int n :: rat) / 40\<rceil> - 1) \<and>
         (n = 1050 \<longrightarrow> length urls = 24) \<and>
         (n \<le> 40 \<longrightarrow> urls = []) \<and>
         (\<exists>enc. quote_plus search = Inr enc \<and>
            u1 = str ''https://www.walmart.com/search?q='' @ enc @
                 str ''&sort=price_low&page=1&affinityOverride=default'' \<and>
            urls = map (\<lambda>i. str ''https://www.walmart.com/search?q='' @ enc @
                              str ''&sort=price_low&page='' @ str_of_int i @
                              str ''&affinityOverride=default'')
                       [2 .. min 25 \<lceil>(of_int n :: rat) / 40\<rceil>])"
    using urls s len l1 l2 e by blast
next
  assume a: "create_search_url search None None = Inr u1 \<and>
    parse_search env (fetch env (ScrapeConfig (JStr u1))) = Inr (previews, JInt n) \<and>
    \<bar>n\<bar> < truediv40_bound"
  assume "0 \<le> n"
  then show "\<exists>x max_page. truediv40 (JInt n) = Inr x \<and> math_ceil x = Inr max_page \<and>
            (if max_page > 25 then 25 else max_page) = min 25 \<lceil>(of_int n :: rat) / 40\<rceil>"
    using math_ceil_pages [of n] a unfolding clamp_min by blast
qed

theorem discover_page_requests_witness:
  "length (snd (discover_walmart shop_env (str ''widgets''))) = 25 \<and>
   snd (discover_walmart shop_env (str ''widgets'')) ! 0 = ScrapeConfig (JStr (str
     ''https://www.walmart.com/search?q=widgets&sort=price_low&page=1&affinityOverride=default'')) \<and>
   snd (discover_walmart shop_env (str ''widgets'')) ! 1 = ScrapeConfig (JStr (str
     ''https://www.walmart.com/search?q=widgets&sort=price_low&page=2&affinityOverride=default'')) \<and>
   snd (discover_walmart shop_env (str ''widgets'')) ! 24 = ScrapeConfig (JStr (str
     ''https://www.walmart.com/search?q=widgets&sort=price_low&page=25&affinityOverride=default''))"
proof -
  let ?u1 = "str ''https://www.walmart.com/search?q=widgets&sort=price_low&page=1&affinityOverride=default''"
  let ?P = "\<lambda>enc i. str ''https://www.walmart.com/search?q='' @ enc @
                     str ''&sort=price_low&page='' @ str_of_int i @
                     str ''&affinityOverride=default''"
  have b: "\<bar>1050\<bar> < truediv40_bound" by (simp add: truediv40_bound_def)
  have h: "create_search_url (str ''widgets'') None None = Inr ?u1 \<and>
           parse_search shop_env (fetch shop_env (ScrapeConfig (JStr ?u1))) =
             Inr (PList [sample_entries ! 0, sample_entries ! 2], JInt 1050) \<and>
           \<bar>1050\<bar> < truediv40_bound"
    using widgets_url shop_first_page b by blast
  have c: "min 25 \<lceil>(of_int 1050 :: rat) / 40\<rceil> = 25" by simp
  from discover_page_requests
    [of shop_env "str ''widgets''" ?u1 "PList [sample_entries ! 0, sample_entries ! 2]" 1050] h
  obtain urls enc where
    s: "snd (discover_walmart shop_env (str ''widgets'')) =
       ScrapeConfig (JStr ?u1) # map (\<lambda>u. ScrapeConfig (JStr u)) urls"
    and l: "length urls = 24"
    and e: "quote_plus (str ''widgets'') = Inr enc"
    and u: "urls = map (?P enc) [2 .. min 25 \<lceil>(of_int 1050 :: rat) / 40\<rceil>]"
    by blast
  have enc: "enc = str ''widgets''" using e widgets_quote by simp
  have "[2 .. 25 :: int] ! 0 = 2" "[2 .. 25 :: int] ! 23 = 25"
    by (simp_all add: upto_rec_numeral)
  then have "urls ! 0 = ?P enc 2" "urls ! 23 = ?P enc 25"
    using l unfolding u c by (simp_all del: upto.simps)
  then have "urls ! 0 = str ''https://www.walmart.com/search?q=widgets&sort=price_low&page=2&affinityOverride=default''"
    "urls ! 23 = str ''https://www.walmart.com/search?q=widgets&sort=price_low&page=25&affinityOverride=default''"
    unfolding enc by (simp_all add: str_of_int_def digits.simps str_def)
  then show ?thesis using s l by simp
qed

text \<open>
  The claim as first stated fails for a huge count: from \<open>40 * (2 ^ 1024 - 2 ^ 970)\<close> on,
  the quotient \<open>total_items / 40\<close> is no finite float, the division raises
  \<open>OverflowError\<close>, and no page beyond the first is requested although the clamped page
  count is 25.
\<close>

theorem discover_overflow_counterexample:
  "discover_walmart (count_env (40 * 2 ^ 1024)) (str ''widgets'') =
     (Inl OverflowError, [ScrapeConfig (JStr (str
       ''https://www.walmart.com/search?q=widgets&sort=price_low&page=1&affinityOverride=default''))]) \<and>
   min 25 \<lceil>(of_int (40 * 2 ^ 1024) :: rat) / 40\<rceil> = 25"
proof -
  define n :: int where "n = 40 * 2 ^ 1024"
  have p: "parse_search (count_env n) (fetch (count_env n) c) = Inr (PList [], JInt n)" for c
    by (simp add: count_env_def count_doc_def parse_search_def obj_def stack_path_def
          seq_index_def str_def)
  have "truediv40_bound \<le> n" by (simp add: truediv40_bound_def n_def)
  then have o: "int_truediv n 40 = Inl OverflowError"
    by (rule int_truediv_overflow(1))
  have "discover_walmart (count_env n) (str ''widgets'') =
     (Inl OverflowError, [ScrapeConfig (JStr (str
       ''https://www.walmart.com/search?q=widgets&sort=price_low&page=1&affinityOverride=default''))])"
    by (simp add: discover_walmart_def widgets_url p o Let_def)
  moreover have "min 25 \<lceil>(of_int n :: rat) / 40\<rceil> = 25"
    by (simp add: n_def)
  ultimately show ?thesis unfolding n_def by blast
qed

text \<open>
  C9. If the first search page has no embedded blob, \<open>discover_walmart\<close> requests no
  further page and returns the empty \<open>dict\<close> of the no-data branch without raising (the
  client delivering nothing for an empty batch); \<open>scrape_walmart\<close> then iterates over no
  preview, requests no product page and returns an empty list.
\<close>

theorem discover_first_page_no_data:
  assumes "create_search_url search None None = Inr u1"
    and "next_data (fetch env (ScrapeConfig (JStr u1))) = None"
    and "deliver env [] = []"
  shows "discover_walmart env search = (Inr PEmptyDict, [ScrapeConfig (JStr u1)]) \<and>
         scrape_walmart env search = (Inr [], [ScrapeConfig (JStr u1)])"
proof -
  have p: "parse_search env (fetch env (ScrapeConfig (JStr u1))) = Inr (PEmptyDict, JInt 0)"
    using assms(2) by (simp add: parse_search_def)
  have x: "truediv40 (JInt 0) = Inr (Finite 0)"
    by (simp add: int_truediv_def round_to_double_def)
  have d: "discover_walmart env search = (Inr PEmptyDict, [ScrapeConfig (JStr u1)])"
    using discover_walmart_unfold [OF assms(1) p x, of 0 "[]"] assms(3)
    by (simp add: concurrent_scrape_def)
  then show ?thesis
    using assms(3) by (simp add: scrape_walmart_def scrape_products_by_url_def concurrent_scrape_def)
qed

theorem discover_first_page_no_data_witness:
  "discover_walmart (sample_env (Inl JSONDecodeError)) (str ''widgets'') =
     (Inr PEmptyDict, [ScrapeConfig (JStr (str
       ''https://www.walmart.com/search?q=widgets&sort=price_low&page=1&affinityOverride=default''))]) \<and>
   scrape_walmart (sample_env (Inl JSONDecodeError)) (str ''widgets'') =
     (Inr [], [ScrapeConfig (JStr (str
       ''https://www.walmart.com/search?q=widgets&sort=price_low&page=1&affinityOverride=default''))])"
  using discover_first_page_no_data [OF widgets_url, of "sample_env (Inl JSONDecodeError)"]
  by (simp add: sample_env_def)

section \<open>Properties of URL resolution\<close>

lemma split_first_absent: "c \<notin> set s \<Longrightarrow> split_first c s = (s, [])"
  by (induction s) (auto simp: split_first_def)

lemma split_first_at: "c \<notin> set a \<Longrightarrow> split_first c (a @ c # b) = (a, b)"
  by (induction a) (auto simp: split_first_def)

lemma split_nonempty: "split c s \<noteq> []"
  by (induction s) (simp_all add: Let_def)

lemma join_split: "join [c] (split c s) = s"
proof (induction s)
  case Nil
  then show ?case by simp
next
  case (Cons x s)
  obtain seg segs where r: "split c s = seg # segs"
    using split_nonempty [of c s] by (cases "split c s") auto
  show ?case
  proof (cases "x = c")
    case True
    then show ?thesis using Cons r by simp
  next
    case False
    then show ?thesis using Cons r by (cases segs) simp_all
  qed
qed

lemma resolve_plain:
  "list_all (\<lambda>seg. seg \<noteq> str ''.'' \<and> seg \<noteq> str ''..'') segs \<Longrightarrow> resolve acc segs = acc @ segs"
  by (induction segs arbitrary: acc) simp_all

lemma remove_unsafe_id: "unsafe_free s \<Longrightarrow> remove_unsafe s = s"
  by (simp add: unsafe_free_def remove_unsafe_def list_all_iff)

lemma unsafe_free_append [simp]: "unsafe_free (a @ b) \<longleftrightarrow> unsafe_free a \<and> unsafe_free b"
  by (simp add: unsafe_free_def)

lemma https_default: "remove_unsafe (strip_c0 (str ''https'')) = str ''https''"
  by (simp add: remove_unsafe_def strip_c0_def lstrip_c0_def str_def)

lemma base_parse:
  "urlparse env (str ''https://www.walmart.com/'') [] =
     Inr (str ''https'', str ''www.walmart.com'', str ''/'', [], [], [])"
  by (simp add: urlparse_def urlsplit_def split_scheme_def splitnetloc_def check_brackets_def
        checknetloc_def split_first_def remove_unsafe_def strip_c0_def lstrip_c0_def
        is_ascii_alpha_def ascii_lower_def scheme_chars_def uses_params_def str_def Let_def)

lemma fragment_split:
  assumes "of_char CHR ''#'' \<notin> set a" "fragment_part fs"
  shows "(if of_char CHR ''#'' \<in> set (a @ fs) then split_first (of_char CHR ''#'') (a @ fs)
          else (a @ fs, [])) = (a, tl fs)"
proof (cases fs)
  case Nil
  then show ?thesis using assms(1) by simp
next
  case (Cons c f)
  then have "c = of_char CHR ''#''" using assms(2) by (simp add: fragment_part_def str_def)
  then show ?thesis using Cons assms(1) split_first_at [of "of_char CHR ''#''" a f] by simp
qed

lemma query_split:
  assumes "of_char CHR ''?'' \<notin> set p" "query_part qs"
  shows "(if of_char CHR ''?'' \<in> set (p @ qs) then split_first (of_char CHR ''?'') (p @ qs)
          else (p @ qs, [])) = (p, tl qs)"
proof (cases qs)
  case Nil
  then show ?thesis using assms(1) by simp
next
  case (Cons c q)
  then have "c = of_char CHR ''?''" using assms(2) by (simp add: query_part_def str_def)
  then show ?thesis using Cons assms(1) split_first_at [of "of_char CHR ''?''" p q] by simp
qed

lemma query_rejoin: "query_part qs \<Longrightarrow> (if tl qs \<noteq> [] then x @ str ''?'' @ tl qs else x) = x @ qs"
  by (cases qs) (auto simp: query_part_def str_def)

lemma fragment_rejoin:
  "fragment_part fs \<Longrightarrow> (if tl fs \<noteq> [] then x @ str ''#'' @ tl fs else x) = x @ fs"
  by (cases fs) (auto simp: fragment_part_def str_def)

lemma query_no_hash: "query_part qs \<Longrightarrow> of_char CHR ''#'' \<notin> set qs"
  by (auto simp: query_part_def)


lemma https_member:
  "str ''https'' \<in> set uses_relative" "str ''https'' \<in> set uses_netloc"
  "str ''https'' \<in> set uses_params" "str ''https'' \<noteq> []"
  by (simp_all add: uses_relative_def uses_netloc_def uses_params_def str_def)

lemma plain_path_facts:
  assumes "plain_path p"
  shows "\<exists>p'. p = of_char CHR ''/'' # p'" "take 2 p \<noteq> str ''//''" "unsafe_free p"
    "of_char CHR ''?'' \<notin> set p" "of_char CHR ''#'' \<notin> set p" "of_char CHR '';'' \<notin> set p"
    "list_all (\<lambda>seg. seg \<noteq> str ''.'' \<and> seg \<noteq> str ''..'') (split (of_char CHR ''/'') p)"
  using assms by (cases p; auto simp: plain_path_def str_def list_all_iff)+

lemma urlsplit_relative:
  assumes "plain_path p" "query_part qs" "fragment_part fs"
  shows "urlsplit env (p @ qs @ fs) (str ''https'') = Inr (str ''https'', [], p, tl qs, tl fs)"
proof -
  let ?u = "p @ qs @ fs"
  obtain p' where p: "p = of_char CHR ''/'' # p'" using plain_path_facts(1) [OF assms(1)] by blast
  have l: "lstrip_c0 ?u = ?u" by (simp add: p lstrip_c0_def)
  have qu: "unsafe_free qs" "unsafe_free fs"
    using assms(2,3) by (auto simp: query_part_def fragment_part_def unsafe_free_def)
  have r: "remove_unsafe ?u = ?u"
    using plain_path_facts(3) [OF assms(1)] qu by (simp add: remove_unsafe_id)
  have s: "split_scheme ?u (str ''https'') = (str ''https'', ?u)"
    by (simp add: split_scheme_def p is_ascii_alpha_def Let_def)
  have t: "take 2 ?u \<noteq> str ''//''"
  proof (cases p')
    case Nil
    then show ?thesis using assms(2,3)
      by (cases qs; cases fs) (auto simp: p query_part_def fragment_part_def str_def)
  next
    case (Cons c p'')
    then show ?thesis using plain_path_facts(2) [OF assms(1)] by (simp add: p)
  qed
  have h: "of_char CHR ''#'' \<notin> set (p @ qs)"
    using plain_path_facts(5) [OF assms(1)] query_no_hash [OF assms(2)] by simp
  have f: "(if of_char CHR ''#'' \<in> set ?u then split_first (of_char CHR ''#'') ?u
            else (?u, [])) = (p @ qs, tl fs)"
    using fragment_split [OF h assms(3)] by (simp only: append_assoc)
  have q: "(if of_char CHR ''?'' \<in> set (p @ qs) then split_first (of_char CHR ''?'') (p @ qs)
            else (p @ qs, [])) = (p, tl qs)"
    by (rule query_split [OF plain_path_facts(4) [OF assms(1)] assms(2)])
  have c: "checknetloc env [] = Inr ()" by (simp add: checknetloc_def)
  show ?thesis
    unfolding urlsplit_def l r https_default s using t
    by (simp only: prod.case if_False bind_Inr f q c)
qed

lemma urljoin_str_relative:
  assumes "plain_path p" "query_part qs" "fragment_part fs"
  shows "urljoin_str env (str ''https://www.walmart.com/'') (p @ qs @ fs) =
           Inr (str ''https://www.walmart.com'' @ p @ qs @ fs)"
proof -
  obtain p' where p: "p = of_char CHR ''/'' # p'" using plain_path_facts(1) [OF assms(1)] by blast
  have parse: "urlparse env (p @ qs @ fs) (str ''https'') =
                 Inr (str ''https'', [], p, [], tl qs, tl fs)"
    unfolding urlparse_def urlsplit_relative [OF assms]
    using plain_path_facts(6) [OF assms(1)] by simp
  let ?segs = "split (of_char CHR ''/'') p"
  have plain: "list_all (\<lambda>seg. seg \<noteq> str ''.'' \<and> seg \<noteq> str ''..'') ?segs"
    by (rule plain_path_facts(7) [OF assms(1)])
  have res: "resolve [] ?segs = ?segs" using resolve_plain [OF plain, of "[]"] by simp
  have "last ?segs \<in> set ?segs" using split_nonempty by simp
  then have last: "last ?segs \<noteq> str ''.''" "last ?segs \<noteq> str ''..''"
    using plain by (auto simp: list_all_iff)
  have j: "join (str ''/'') ?segs = p" using join_split [of "of_char CHR ''/''" p] by (simp add: str_def)
  have t1: "take 1 p = str ''/''" by (simp add: p str_def)
  have ne: "p \<noteq> []" by (simp add: p)
  have un: "urlunparse (str ''https'', str ''www.walmart.com'', p, [], tl qs, tl fs) =
            str ''https://www.walmart.com'' @ p @ qs @ fs"
  proof -
    have "urlunparse (str ''https'', str ''www.walmart.com'', p, [], tl qs, tl fs) =
          (let u3 = (if tl qs \<noteq> [] then (str ''https://www.walmart.com'' @ p) @ str ''?'' @ tl qs
                     else str ''https://www.walmart.com'' @ p)
           in if tl fs \<noteq> [] then u3 @ str ''#'' @ tl fs else u3)"
      by (simp add: urlunparse_def urlunsplit_def p) (simp add: str_def)
    also have "\<dots> = (str ''https://www.walmart.com'' @ (p @ qs)) @ fs"
      unfolding Let_def query_rejoin [OF assms(2)] by (simp add: fragment_rejoin [OF assms(3)])
    finally show ?thesis by simp
  qed
  show ?thesis
    unfolding urljoin_str_def base_parse
    by (simp only: bind_Inr prod.case Let_def parse https_member t1 res last j un ne
          simp_thms if_True if_False)
qed


lemma scheme_char_facts:
  assumes "c \<in> set scheme_chars"
  shows "c \<noteq> of_char CHR '':''" "c \<noteq> 9 \<and> c \<noteq> 13 \<and> c \<noteq> 10"
  using assms by (auto simp: scheme_chars_def str_def)

lemma takeWhile_prefix:
  "\<forall>x\<in>set a. P x \<Longrightarrow> b = [] \<or> \<not> P (hd b) \<Longrightarrow> takeWhile P (a @ b) = a"
  by (cases b) (simp_all add: takeWhile_append2)

lemma rest_head:
  assumes "abs_path p" "query_part qs" "fragment_part fs"
  shows "p @ qs @ fs = [] \<or> hd (p @ qs @ fs) \<in> set (str ''/?#'')"
  using assms
  by (cases p; cases qs; cases fs)
     (auto simp: abs_path_def query_part_def fragment_part_def str_def)

lemma abs_path_facts:
  assumes "abs_path p"
  shows "unsafe_free p" "of_char CHR ''?'' \<notin> set p" "of_char CHR ''#'' \<notin> set p"
    "of_char CHR '';'' \<notin> set p" "\<not> (p \<noteq> [] \<and> take 1 p \<noteq> str ''/'')"
  using assms by (auto simp: abs_path_def unsafe_free_def str_def list_all_iff)

lemma urlsplit_absolute:
  assumes "valid_scheme s" "plain_host h" "abs_path p" "query_part qs" "fragment_part fs"
  shows "urlsplit env (s @ str ''://'' @ h @ p @ qs @ fs) d =
           Inr (map ascii_lower s, h, p, tl qs, tl fs)"
proof -
  let ?rest = "p @ qs @ fs"
  let ?u = "s @ str ''://'' @ h @ ?rest"
  obtain c s' where s: "s = c # s'" and alpha: "is_ascii_alpha c"
    using assms(1) by (cases s) (auto simp: valid_scheme_def)
  have sc: "\<forall>x\<in>set s. x \<in> set scheme_chars"
    using assms(1) by (simp add: valid_scheme_def list_all_iff)
  have l: "lstrip_c0 ?u = ?u"
    using alpha by (auto simp: s lstrip_c0_def is_ascii_alpha_def)
  have qu: "unsafe_free qs" "unsafe_free fs"
    using assms(4,5) by (auto simp: query_part_def fragment_part_def unsafe_free_def)
  have su: "unsafe_free s"
    using sc scheme_char_facts(2) by (auto simp: unsafe_free_def list_all_iff)
  have hu: "unsafe_free h" using assms(2) by (simp add: plain_host_def)
  have cu: "unsafe_free (str ''://'')" by (simp add: unsafe_free_def str_def)
  have r: "remove_unsafe ?u = ?u"
    using su hu cu qu abs_path_facts(1) [OF assms(3)] by (simp add: remove_unsafe_id)
  have tw: "takeWhile (\<lambda>x. x \<noteq> of_char CHR '':'') ?u = s"
    using sc scheme_char_facts(1) by (intro takeWhile_prefix) (auto simp: str_def)
  have colon: "of_char CHR '':'' \<in> set ?u" by (simp add: str_def)
  have hdu: "hd ?u = c" by (simp add: s)
  have dr: "drop (length s + 1) ?u = str ''//'' @ h @ ?rest" by (simp add: str_def)
  have sp: "split_scheme ?u d' = (map ascii_lower s, str ''//'' @ h @ ?rest)" for d'
    unfolding split_scheme_def tw Let_def using colon alpha assms(1) dr
    by (simp only: hdu valid_scheme_def if_True simp_thms)
  have t: "take 2 (str ''//'' @ h @ ?rest) = str ''//''" by (simp add: str_def)
  have hs: "\<forall>x\<in>set h. x \<notin> set (str ''/?#'')"
    using assms(2) by (auto simp: plain_host_def list_all_iff str_def)
  have d2: "drop 2 (str ''//'' @ h @ ?rest) = h @ ?rest" by (simp add: str_def)
  have th: "takeWhile (\<lambda>c. c \<notin> set (str ''/?#'')) (h @ ?rest) = h"
    using hs rest_head [OF assms(3,4,5)] by (intro takeWhile_prefix) auto
  have nl: "splitnetloc (str ''//'' @ h @ ?rest) = (h, ?rest)"
    unfolding splitnetloc_def d2 th Let_def by simp
  have nb: "of_char CHR ''['' \<notin> set h" "of_char CHR '']'' \<notin> set h"
    using assms(2) by (auto simp: plain_host_def list_all_iff str_def)
  have cb: "check_brackets env h = Inr ()"
    unfolding check_brackets_def Let_def using nb by (simp only: simp_thms if_False)
  have cn: "checknetloc env h = Inr ()"
    using assms(2) by (simp add: checknetloc_def plain_host_def list_all_iff)
  have hh: "of_char CHR ''#'' \<notin> set (p @ qs)"
    using abs_path_facts(3) [OF assms(3)] query_no_hash [OF assms(4)] by simp
  have f: "(if of_char CHR ''#'' \<in> set ?rest then split_first (of_char CHR ''#'') ?rest
            else (?rest, [])) = (p @ qs, tl fs)"
    using fragment_split [OF hh assms(5)] by (simp only: append_assoc)
  have q: "(if of_char CHR ''?'' \<in> set (p @ qs) then split_first (of_char CHR ''?'') (p @ qs)
            else (p @ qs, [])) = (p, tl qs)"
    by (rule query_split [OF abs_path_facts(2) [OF assms(3)] assms(4)])
  show ?thesis
    unfolding urlsplit_def l r sp
    by (simp only: prod.case t if_True nl bind_Inr cb f q cn simp_thms)
qed

lemma urljoin_str_absolute:
  assumes "valid_scheme s" "plain_host h" "abs_path p" "query_part qs" "fragment_part fs"
  shows "urljoin_str env (str ''https://www.walmart.com/'') (s @ str ''://'' @ h @ p @ qs @ fs) =
           Inr ((if map ascii_lower s = str ''https'' then str ''https'' else s) @
                str ''://'' @ h @ p @ qs @ fs)"
proof -
  let ?u = "s @ str ''://'' @ h @ p @ qs @ fs"
  have parse: "urlparse env ?u (str ''https'') =
                 Inr (map ascii_lower s, h, p, [], tl qs, tl fs)"
    unfolding urlparse_def urlsplit_absolute [OF assms]
    using abs_path_facts(4) [OF assms(3)] by simp
  have h: "h \<noteq> []" using assms(2) by (simp add: plain_host_def)
  show ?thesis
  proof (cases "map ascii_lower s = str ''https''")
    case False
    then show ?thesis
      unfolding urljoin_str_def base_parse
      by (simp only: bind_Inr prod.case parse simp_thms if_True if_False)
  next
    case True
    have p5: "(if p \<noteq> [] \<and> take 1 p \<noteq> str ''/'' then str ''/'' @ p else p) = p"
      using abs_path_facts(5) [OF assms(3)] by auto
    have un: "urlunparse (str ''https'', h, p, [], tl qs, tl fs) =
              str ''https'' @ str ''://'' @ h @ p @ qs @ fs"
    proof -
      have "urlunparse (str ''https'', h, p, [], tl qs, tl fs) =
            (let u3 = (if tl qs \<noteq> [] then (str ''https'' @ str ''://'' @ h @ p) @ str ''?'' @ tl qs
                       else str ''https'' @ str ''://'' @ h @ p)
             in if tl fs \<noteq> [] then u3 @ str ''#'' @ tl fs else u3)"
        using h abs_path_facts(5) [OF assms(3)]
        by (auto simp: urlunparse_def urlunsplit_def https_member str_def Let_def)
      also have "\<dots> = (str ''https'' @ str ''://'' @ h @ (p @ qs)) @ fs"
        unfolding Let_def query_rejoin [OF assms(4)] by (simp add: fragment_rejoin [OF assms(5)])
      finally show ?thesis by simp
    qed
    show ?thesis
      unfolding urljoin_str_def base_parse
      by (simp only: bind_Inr prod.case parse True https_member h un simp_thms if_True if_False)
  qed
qed


lemma urljoin_str_arg:
  "u \<noteq> [] \<Longrightarrow>
   urljoin env (str ''https://www.walmart.com/'') (JStr u) =
     bind (urljoin_str env (str ''https://www.walmart.com/'') u) (\<lambda>r. Inr (JStr r))"
  by (simp add: urljoin_def str_def)

lemma product_urls_each:
  "product_urls env previews = Inr urls \<Longrightarrow>
   length urls = length previews \<and>
   (\<forall>i<length previews. \<exists>c.
      subscript (previews ! i) (KStr (str ''canonicalUrl'')) = Inr c \<and>
      urljoin env (str ''https://www.walmart.com/'') c = Inr (urls ! i))"
proof (induction previews arbitrary: urls)
  case Nil
  then show ?case by simp
next
  case (Cons x xs)
  from Cons.prems obtain c u us where
    c: "subscript x (KStr (str ''canonicalUrl'')) = Inr c"
    and u: "urljoin env (str ''https://www.walmart.com/'') c = Inr u"
    and us: "product_urls env xs = Inr us" and urls: "urls = u # us"
    by (auto simp: bind_def split: sum.splits)
  from Cons.IH [OF us] have len: "length us = length xs"
    and each: "\<forall>i<length xs. \<exists>c.
      subscript (xs ! i) (KStr (str ''canonicalUrl'')) = Inr c \<and>
      urljoin env (str ''https://www.walmart.com/'') c = Inr (us ! i)"
    by blast+
  have "\<exists>c. subscript ((x # xs) ! i) (KStr (str ''canonicalUrl'')) = Inr c \<and>
            urljoin env (str ''https://www.walmart.com/'') c = Inr (urls ! i)"
    if "i < length (x # xs)" for i
    using that c u each urls by (cases i) auto
  then show ?case using len urls by simp
qed

lemma sample_forms:
  "plain_path (str ''/ip/a/1'')" "query_part (str ''?x=1'')" "fragment_part (str ''#top'')"
  "query_part []" "fragment_part []"
  "valid_scheme (str ''http'')" "valid_scheme (str ''HTTPS'')" "plain_host (str ''example.com'')"
  "abs_path (str ''/a/../b'')"
  by (simp_all add: plain_path_def query_part_def fragment_part_def valid_scheme_def
        plain_host_def abs_path_def unsafe_free_def is_ascii_alpha_def scheme_chars_def
        str_def Let_def)

text \<open>
  C10, as amended. The product-page URL of every preview is \<open>urljoin\<close> of the base
  \<open>https://www.walmart.com/\<close> and the preview's \<open>canonicalUrl\<close>, position by position.
  A site-relative canonical URL in plain form (a path that starts with a single slash and
  has no \<open>.\<close> or \<open>..\<close> segment and no semicolon, then optionally a non-empty query and a
  non-empty fragment, all free of tab, carriage return and line feed) is prefixed with the
  scheme and host of the base. A canonical URL that is absolute (\<open>scheme://host\<close> with an
  ASCII host without brackets, then an empty or slash-led path without semicolon and the
  same optional parts) replaces the base entirely: it is returned as it is, except that
  the scheme \<open>https\<close> written in another letter case comes back in lower case.
\<close>

theorem canonical_url_resolution:
  "(product_urls env previews = Inr urls \<longrightarrow>
      length urls = length previews \<and>
      (\<forall>i<length previews. \<exists>c.
         subscript (previews ! i) (KStr (str ''canonicalUrl'')) = Inr c \<and>
         urljoin env (str ''https://www.walmart.com/'') c = Inr (urls ! i))) \<and>
   (plain_path p \<and> query_part qs \<and> fragment_part fs \<longrightarrow>
      urljoin env (str ''https://www.walmart.com/'') (JStr (p @ qs @ fs)) =
        Inr (JStr (str ''https://www.walmart.com'' @ p @ qs @ fs))) \<and>
   (valid_scheme s \<and> plain_host h \<and> abs_path a \<and> query_part qs \<and> fragment_part fs \<longrightarrow>
      urljoin env (str ''https://www.walmart.com/'') (JStr (s @ str ''://'' @ h @ a @ qs @ fs)) =
        Inr (JStr ((if map ascii_lower s = str ''https'' then str ''https'' else s) @
                   str ''://'' @ h @ a @ qs @ fs)))"
proof -
  have 1: "product_urls env previews = Inr urls \<longrightarrow>
      length urls = length previews \<and>
      (\<forall>i<length previews. \<exists>c.
         subscript (previews ! i) (KStr (str ''canonicalUrl'')) = Inr c \<and>
         urljoin env (str ''https://www.walmart.com/'') c = Inr (urls ! i))"
    using product_urls_each by blast
  have 2: "plain_path p \<and> query_part qs \<and> fragment_part fs \<longrightarrow>
      urljoin env (str ''https://www.walmart.com/'') (JStr (p @ qs @ fs)) =
        Inr (JStr (str ''https://www.walmart.com'' @ p @ qs @ fs))"
  proof
    assume a: "plain_path p \<and> query_part qs \<and> fragment_part fs"
    then have "p \<noteq> []" using plain_path_facts(1) by blast
    then have ne: "p @ qs @ fs \<noteq> []" by simp
    from a have pp: "plain_path p" "query_part qs" "fragment_part fs" by blast+
    show "urljoin env (str ''https://www.walmart.com/'') (JStr (p @ qs @ fs)) =
          Inr (JStr (str ''https://www.walmart.com'' @ p @ qs @ fs))"
      unfolding urljoin_str_arg [OF ne] urljoin_str_relative [OF pp] by simp
  qed
  have 3: "valid_scheme s \<and> plain_host h \<and> abs_path a \<and> query_part qs \<and> fragment_part fs \<longrightarrow>
      urljoin env (str ''https://www.walmart.com/'') (JStr (s @ str ''://'' @ h @ a @ qs @ fs)) =
        Inr (JStr ((if map ascii_lower s = str ''https'' then str ''https'' else s) @
                   str ''://'' @ h @ a @ qs @ fs))"
  proof
    assume a: "valid_scheme s \<and> plain_host h \<and> abs_path a \<and> query_part qs \<and> fragment_part fs"
    then have "s \<noteq> []" by (simp add: valid_scheme_def)
    then have ne: "s @ str ''://'' @ h @ a @ qs @ fs \<noteq> []" by simp
    from a have pp: "valid_scheme s" "plain_host h" "abs_path a" "query_part qs" "fragment_part fs"
      by blast+
    show "urljoin env (str ''https://www.walmart.com/'') (JStr (s @ str ''://'' @ h @ a @ qs @ fs)) =
          Inr (JStr ((if map ascii_lower s = str ''https'' then str ''https'' else s) @
                     str ''://'' @ h @ a @ qs @ fs))"
      unfolding urljoin_str_arg [OF ne] urljoin_str_absolute [OF pp] by simp
  qed
  show ?thesis using 1 2 3 by blast
qed

theorem canonical_url_resolution_witness:
  "urljoin shop_env (str ''https://www.walmart.com/'') (JStr (str ''/ip/a/1?x=1#top'')) =
     Inr (JStr (str ''https://www.walmart.com/ip/a/1?x=1#top'')) \<and>
   urljoin shop_env (str ''https://www.walmart.com/'') (JStr (str ''http://example.com/a/../b'')) =
     Inr (JStr (str ''http://example.com/a/../b'')) \<and>
   urljoin shop_env (str ''https://www.walmart.com/'') (JStr (str ''HTTPS://example.com/a/../b?x=1'')) =
     Inr (JStr (str ''https://example.com/a/../b?x=1''))"
proof -
  note t = canonical_url_resolution [of shop_env "[]" "[]"]
  have a: "urljoin shop_env (str ''https://www.walmart.com/'')
             (JStr (str ''/ip/a/1'' @ str ''?x=1'' @ str ''#top'')) =
           Inr (JStr (str ''https://www.walmart.com'' @ str ''/ip/a/1'' @ str ''?x=1'' @ str ''#top''))"
    using t [of "str ''/ip/a/1''" "str ''?x=1''" "str ''#top''"] sample_forms by blast
  have b: "urljoin shop_env (str ''https://www.walmart.com/'')
             (JStr (str ''http'' @ str ''://'' @ str ''example.com'' @ str ''/a/../b'' @ [] @ [])) =
           Inr (JStr ((if map ascii_lower (str ''http'') = str ''https'' then str ''https''
                       else str ''http'') @
                      str ''://'' @ str ''example.com'' @ str ''/a/../b'' @ [] @ []))"
    using t [of _ "[]" "[]" "str ''http''" "str ''example.com''" "str ''/a/../b''"] sample_forms
    by blast
  have c: "urljoin shop_env (str ''https://www.walmart.com/'')
             (JStr (str ''HTTPS'' @ str ''://'' @ str ''example.com'' @ str ''/a/../b'' @ str ''?x=1'' @ [])) =
           Inr (JStr ((if map ascii_lower (str ''HTTPS'') = str ''https'' then str ''https''
                       else str ''HTTPS'') @
                      str ''://'' @ str ''example.com'' @ str ''/a/../b'' @ str ''?x=1'' @ []))"
    using t [of _ "str ''?x=1''" "[]" "str ''HTTPS''" "str ''example.com''" "str ''/a/../b''"]
      sample_forms by blast
  show ?thesis
    using a b c by (simp add: str_def ascii_lower_def)
qed

text \<open>
  The claim as first stated fails on both counts: a site-relative path with a \<open>..\<close>
  segment is normalised and not merely prefixed, and an absolute URL whose scheme is
  \<open>HTTPS\<close> in capitals is not returned as it is.
\<close>

theorem canonical_url_resolution_counterexample:
  "urljoin shop_env (str ''https://www.walmart.com/'') (JStr (str ''/ip/../x'')) =
     Inr (JStr (str ''https://www.walmart.com/x'')) \<and>
   urljoin shop_env (str ''https://www.walmart.com/'') (JStr (str ''HTTPS://example.com/a'')) =
     Inr (JStr (str ''https://example.com/a''))"
proof -
  have "urlparse shop_env (str ''/ip/../x'') (str ''https'') =
          Inr (str ''https'', [], str ''/ip/../x'', [], [], [])"
    by (simp add: urlparse_def urlsplit_def split_scheme_def checknetloc_def
          remove_unsafe_def strip_c0_def lstrip_c0_def is_ascii_alpha_def str_def Let_def)
  then have "urljoin_str shop_env (str ''https://www.walmart.com/'') (str ''/ip/../x'') =
          Inr (str ''https://www.walmart.com/x'')"
    unfolding urljoin_str_def base_parse
    by (simp add: https_member Let_def)
       (simp add: urlunparse_def urlunsplit_def uses_netloc_def str_def Let_def)
  then have a: "urljoin shop_env (str ''https://www.walmart.com/'') (JStr (str ''/ip/../x'')) =
     Inr (JStr (str ''https://www.walmart.com/x''))"
    by (simp add: urljoin_def str_def)
  have "urljoin_str shop_env (str ''https://www.walmart.com/'')
          (str ''HTTPS'' @ str ''://'' @ str ''example.com'' @ str ''/a'' @ [] @ []) =
        Inr ((if map ascii_lower (str ''HTTPS'') = str ''https'' then str ''https'' else str ''HTTPS'') @
             str ''://'' @ str ''example.com'' @ str ''/a'' @ [] @ [])"
    by (rule urljoin_str_absolute)
       (simp_all add: query_part_def fragment_part_def valid_scheme_def
          plain_host_def abs_path_def unsafe_free_def is_ascii_alpha_def scheme_chars_def
          str_def)
  then have b: "urljoin shop_env (str ''https://www.walmart.com/'') (JStr (str ''HTTPS://example.com/a'')) =
     Inr (JStr (str ''https://example.com/a''))"
    by (simp add: urljoin_def str_def ascii_lower_def)
  show ?thesis using a b by blast
qed

section \<open>Properties of collection\<close>





















end
